theory Spec2Isabelle
  imports Complex_Main
begin

section \<open>Gas absorption lookup table: data model\<close>

text \<open>
  The embedding follows \<^verbatim>\<open>gas_abs_lookup.cc\<close>. \<^verbatim>\<open>Numeric\<close> is idealised as
  \<^typ>\<open>real\<close>, \<^verbatim>\<open>Index\<close> values stored in arrays as \<^typ>\<open>int\<close>, loop counters and
  sizes as \<^typ>\<open>nat\<close>. A \<^verbatim>\<open>Vector\<close> or \<^verbatim>\<open>Array\<close> is a list. Every
  \<^verbatim>\<open>throw runtime_error\<close> is an error value; the element access operators of the array
  classes assert their index range, and an access outside the range is the error
  \<open>AssertionFailure\<close>.
\<close>

datatype error =
    EmptySpeciesTable
  | DuplicateNonlinearSpecies
  | NonlinearSpeciesOutOfRange
  | GridNotIncreasing
  | GridNotDecreasing
  | LengthMismatch
  | MissingNlsPert
  | ShapeMismatch
  | EmptyRequest
  | SpeciesNotFound
  | SpeciesNotUnique
  | GridPointNotFound
  | NoHumidityReferenceSpecies
  | TableNotAdapted
  | InsufficientGridForOrder
  | DimensionMismatch
  | IndexOutOfRange
  | PressureOutOfRange
  | TemperatureOutOfRange
  | HumidityOutOfRange
  | AssertionFailure

section \<open>Grid locator\<close>

text \<open>The frequency difference that \<^verbatim>\<open>find_new_grid_in_old_grid\<close> tolerates.\<close>

definition tolerance :: real where
  "tolerance = 1"

text \<open>
  The inner \<^verbatim>\<open>while\<close> loop of \<^verbatim>\<open>find_new_grid_in_old_grid\<close> for one new grid value
  \<open>x\<close>, entered with the old grid position \<open>j\<close>. The loop condition reads
  \<^verbatim>\<open>old_grid[j]\<close> before any comparison of \<open>j\<close> with the grid length; the length is
  compared only after the increment.
\<close>

function scan_old_grid :: "real list \<Rightarrow> real \<Rightarrow> nat \<Rightarrow> error + nat" where
  "scan_old_grid old_grid x j =
     (if length old_grid \<le> j then Inl AssertionFailure
      else if \<bar>x - old_grid ! j\<bar> > tolerance
        then (if length old_grid \<le> Suc j then Inl GridPointNotFound
              else scan_old_grid old_grid x (Suc j))
      else Inr j)"
  by pat_completeness auto
termination
  by (relation "measure (\<lambda>(old_grid, x, j). length old_grid - j)") auto

declare scan_old_grid.simps [simp del]

text \<open>The outer \<^verbatim>\<open>for\<close> loop over the new grid; \<open>j\<close> is never reset.\<close>

fun locate_from :: "real list \<Rightarrow> real list \<Rightarrow> nat \<Rightarrow> error + nat list" where
  "locate_from old_grid [] j = Inr []"
| "locate_from old_grid (x # xs) j =
     (case scan_old_grid old_grid x j of
        Inl e \<Rightarrow> Inl e
      | Inr j' \<Rightarrow>
          (case locate_from old_grid xs j' of
             Inl e \<Rightarrow> Inl e
           | Inr pos \<Rightarrow> Inr (j' # pos)))"

definition find_new_grid_in_old_grid :: "real list \<Rightarrow> real list \<Rightarrow> error + nat list" where
  "find_new_grid_in_old_grid old_grid new_grid = locate_from old_grid new_grid 0"

section \<open>The lookup table\<close>

text \<open>
  A \<^verbatim>\<open>Matrix\<close> and a \<^verbatim>\<open>Tensor4\<close> carry their extents and their elements.
  \<^verbatim>\<open>resize\<close> gives new storage; its elements read 0 until they are written.
\<close>

record Matrix =
  m_nrows :: nat
  m_ncols :: nat
  m_elem :: "nat \<Rightarrow> nat \<Rightarrow> real"

record Tensor4 =
  t_nbooks :: nat
  t_npages :: nat
  t_nrows :: nat
  t_ncols :: nat
  t_elem :: "nat \<Rightarrow> nat \<Rightarrow> nat \<Rightarrow> nat \<Rightarrow> real"

definition matrix_resize :: "nat \<Rightarrow> nat \<Rightarrow> Matrix" where
  "matrix_resize r c = \<lparr>m_nrows = r, m_ncols = c, m_elem = (\<lambda>i j. 0)\<rparr>"

definition tensor4_resize :: "nat \<Rightarrow> nat \<Rightarrow> nat \<Rightarrow> nat \<Rightarrow> Tensor4" where
  "tensor4_resize b p r c =
     \<lparr>t_nbooks = b, t_npages = p, t_nrows = r, t_ncols = c, t_elem = (\<lambda>i j k l. 0)\<rparr>"

text \<open>
  The class \<^verbatim>\<open>GasAbsLookup\<close>. The type \<open>'sp\<close> stands for a species tag group
  (\<^verbatim>\<open>ArrayOfSpeciesTag\<close>), compared with its equality operator.
\<close>

record 'sp GasAbsLookup =
  species :: "'sp list"
  nonlinear_species :: "int list"
  f_grid :: "real list"
  p_grid :: "real list"
  log_p_grid :: "real list"
  vmrs_ref :: Matrix
  t_ref :: "real list"
  t_pert :: "real list"
  nls_pert :: "real list"
  xsec :: Tensor4

section \<open>Input checks\<close>

text \<open>
  Modelled from the spec: the predicates and checks of \<^verbatim>\<open>logic.cc\<close> and
  \<^verbatim>\<open>check_input.cc\<close>, which are not among the sources. A grid is increasing
  (decreasing) when it is strictly so; an index array is unique when no entry repeats;
  \<^verbatim>\<open>chk_contains\<close> returns the position of an entry that occurs exactly once and
  fails when it occurs never or more than once; \<^verbatim>\<open>chk_size\<close> compares the four
  extents of a tensor.
\<close>

definition is_increasing :: "real list \<Rightarrow> bool" where
  "is_increasing x = sorted_wrt (<) x"

definition is_decreasing :: "real list \<Rightarrow> bool" where
  "is_decreasing x = sorted_wrt (>) x"

definition is_unique :: "int list \<Rightarrow> bool" where
  "is_unique x = distinct x"

definition find_all :: "'a list \<Rightarrow> 'a \<Rightarrow> nat list" where
  "find_all x what = filter (\<lambda>i. x ! i = what) [0..<length x]"

definition chk_contains :: "'a list \<Rightarrow> 'a \<Rightarrow> error + nat" where
  "chk_contains x what =
     (case find_all x what of
        [] \<Rightarrow> Inl SpeciesNotFound
      | [p] \<Rightarrow> Inr p
      | p # q # ps \<Rightarrow> Inl SpeciesNotUnique)"

definition chk_size :: "Tensor4 \<Rightarrow> int \<Rightarrow> int \<Rightarrow> int \<Rightarrow> int \<Rightarrow> error + unit" where
  "chk_size x a b c d =
     (if int (t_nbooks x) = a \<and> int (t_npages x) = b \<and> int (t_nrows x) = c \<and> int (t_ncols x) = d
      then Inr () else Inl ShapeMismatch)"

text \<open>A loop whose body may fail: the first failure ends it.\<close>

fun fold_err :: "('a \<Rightarrow> 's \<Rightarrow> error + 's) \<Rightarrow> 'a list \<Rightarrow> 's \<Rightarrow> error + 's" where
  "fold_err f [] s = Inr s"
| "fold_err f (x # xs) s = (case f x s of Inl e \<Rightarrow> Inl e | Inr s' \<Rightarrow> fold_err f xs s')"

section \<open>Adapt\<close>

text \<open>
  The logical array \<^verbatim>\<open>non_linear\<close>: \<^verbatim>\<open>non_linear[nonlinear_species[s]] = 1\<close> for every
  \<open>s\<close>. The loop runs before the range check of \<^verbatim>\<open>nonlinear_species\<close>.
\<close>

fun set_non_linear :: "int list \<Rightarrow> int list \<Rightarrow> error + int list" where
  "set_non_linear [] non_linear = Inr non_linear"
| "set_non_linear (s # ss) non_linear =
     (if 0 \<le> s \<and> s < int (length non_linear)
      then set_non_linear ss (non_linear[nat s := 1])
      else Inl AssertionFailure)"

text \<open>The three cases of the extents of \<^verbatim>\<open>xsec\<close>, as \<^verbatim>\<open>Adapt\<close> tells them apart.\<close>

definition chk_xsec :: "'sp GasAbsLookup \<Rightarrow> error + unit" where
  "chk_xsec this =
     (let n_species = int (length (species this));
          n_nls = int (length (nonlinear_species this));
          n_nls_pert = int (length (nls_pert this));
          n_f_grid = int (length (f_grid this));
          n_p_grid = int (length (p_grid this))
      in if 0 = n_nls
         then (if 0 = length (t_pert this)
               then chk_size (xsec this) 1 n_species n_f_grid n_p_grid
               else chk_size (xsec this) (int (length (t_pert this))) n_species n_f_grid n_p_grid)
         else chk_size (xsec this) (int (length (t_pert this)))
                (n_species + n_nls * (n_nls_pert - 1)) n_f_grid n_p_grid)"

text \<open>The checks on the lookup table itself, in the order of the source.\<close>

definition check_table :: "'sp GasAbsLookup \<Rightarrow> error + unit" where
  "check_table this =
     (let n_species = length (species this);
          n_nls = length (nonlinear_species this);
          n_nls_pert = length (nls_pert this);
          n_p_grid = length (p_grid this)
      in if 0 = n_species then Inl EmptySpeciesTable
         else if \<not> is_unique (nonlinear_species this) then Inl DuplicateNonlinearSpecies
         else if \<not> list_all (\<lambda>x. 0 \<le> x \<and> x \<le> int n_species - 1) (nonlinear_species this)
           then Inl NonlinearSpeciesOutOfRange
         else if \<not> is_increasing (f_grid this) then Inl GridNotIncreasing
         else if \<not> is_decreasing (p_grid this) then Inl GridNotDecreasing
         else if m_nrows (vmrs_ref this) \<noteq> n_species then Inl LengthMismatch
         else if m_ncols (vmrs_ref this) \<noteq> n_p_grid then Inl LengthMismatch
         else if length (t_ref this) \<noteq> n_p_grid then Inl LengthMismatch
         else if 0 = n_nls \<and> length (nls_pert this) \<noteq> 0 then Inl LengthMismatch
         else if 0 \<noteq> n_nls \<and> 0 = n_nls_pert then Inl MissingNlsPert
         else chk_xsec this)"

text \<open>
  The position of every original species in the page dimension of \<^verbatim>\<open>xsec\<close>: a
  nonlinear species takes \<^verbatim>\<open>n_nls_pert\<close> pages, any other species one.
\<close>

fun spec_pos_in_xsec :: "int list \<Rightarrow> nat \<Rightarrow> nat \<Rightarrow> nat list" where
  "spec_pos_in_xsec [] n_nls_pert sp = []"
| "spec_pos_in_xsec (nl # non_linear) n_nls_pert sp =
     sp # spec_pos_in_xsec non_linear n_nls_pert (if nl \<noteq> 0 then sp + n_nls_pert else sp + 1)"

text \<open>Step 1: the index of every current species in the table.\<close>

fun find_current_species :: "'sp list \<Rightarrow> 'sp list \<Rightarrow> error + nat list" where
  "find_current_species spec [] = Inr []"
| "find_current_species spec (c # cs) =
     (case chk_contains spec c of
        Inl e \<Rightarrow> Inl e
      | Inr i \<Rightarrow>
          (case find_current_species spec cs of
             Inl e \<Rightarrow> Inl e
           | Inr is \<Rightarrow> Inr (i # is)))"

text \<open>
  The assignment \<^verbatim>\<open>new_table.vmrs_ref(i, joker) = vmrs_ref(i_current_species[i], joker)\<close>.
\<close>

definition copy_vmrs_row :: "Matrix \<Rightarrow> nat \<Rightarrow> nat \<Rightarrow> Matrix \<Rightarrow> error + Matrix" where
  "copy_vmrs_row old src dst new =
     (if dst < m_nrows new \<and> src < m_nrows old \<and> m_ncols new = m_ncols old
      then Inr (new\<lparr>m_elem := (\<lambda>r c. if r = dst \<and> c < m_ncols new
                                      then m_elem old src c else m_elem new r c)\<rparr>)
      else Inl AssertionFailure)"

text \<open>
  The assignment of one block of pages at one frequency:
  \<^verbatim>\<open>new_table.xsec(joker, Range(sp,n_v), i_f, joker) = xsec(joker, Range(orig,n_v), pos_f, joker)\<close>.
\<close>

definition copy_xsec_block ::
  "Tensor4 \<Rightarrow> nat \<Rightarrow> nat \<Rightarrow> nat \<Rightarrow> nat \<Rightarrow> nat \<Rightarrow> Tensor4 \<Rightarrow> error + Tensor4" where
  "copy_xsec_block old sp orig n_v i_f pos_f new =
     (if t_nbooks new = t_nbooks old \<and> t_ncols new = t_ncols old \<and>
         sp + n_v \<le> t_npages new \<and> orig + n_v \<le> t_npages old \<and>
         i_f < t_nrows new \<and> pos_f < t_nrows old
      then Inr (new\<lparr>t_elem := (\<lambda>b p r c.
                   if b < t_nbooks new \<and> sp \<le> p \<and> p < sp + n_v \<and> r = i_f \<and> c < t_ncols new
                   then t_elem old b (orig + (p - sp)) pos_f c
                   else t_elem new b p r c)\<rparr>)
      else Inl AssertionFailure)"

text \<open>
  The loop over the current species that fills the new \<^verbatim>\<open>xsec\<close>; \<open>sp\<close> is the first
  page of the current species in the new table.
\<close>

fun copy_species ::
  "Tensor4 \<Rightarrow> nat list \<Rightarrow> nat list \<Rightarrow> int list \<Rightarrow> nat \<Rightarrow> nat list \<Rightarrow>
   nat list \<Rightarrow> nat \<Rightarrow> Tensor4 \<Rightarrow> error + Tensor4" where
  "copy_species old original_spec_pos i_current_species current_non_linear n_nls_pert
     i_current_f_grid [] sp new = Inr new"
| "copy_species old original_spec_pos i_current_species current_non_linear n_nls_pert
     i_current_f_grid (i_s # rest) sp new =
     (let n_v = (if current_non_linear ! i_s \<noteq> 0 then n_nls_pert else 1)
      in case fold_err
                (\<lambda>i_f. copy_xsec_block old sp (original_spec_pos ! (i_current_species ! i_s))
                          n_v i_f (i_current_f_grid ! i_f))
                [0..<length i_current_f_grid] new of
           Inl e \<Rightarrow> Inl e
         | Inr new' \<Rightarrow>
             copy_species old original_spec_pos i_current_species current_non_linear n_nls_pert
               i_current_f_grid rest (sp + n_v) new')"

text \<open>Step 3: the new table, built from the species and frequency index lists.\<close>

definition build_new_table ::
  "'sp GasAbsLookup \<Rightarrow> nat list \<Rightarrow> int list \<Rightarrow> nat \<Rightarrow> nat list \<Rightarrow> nat list \<Rightarrow>
   error + 'sp GasAbsLookup" where
  "build_new_table this i_current_species current_non_linear n_current_nonlinear_species
     i_current_f_grid original_spec_pos =
     (let n_current_species = length i_current_species;
          n_current_f_grid = length i_current_f_grid;
          n_nls_pert = length (nls_pert this);
          n_p_grid = length (p_grid this);
          new_nonlinear_species =
            map int (filter (\<lambda>i. current_non_linear ! i \<noteq> 0) [0..<n_current_species])
      in case fold_err (\<lambda>i. copy_vmrs_row (vmrs_ref this) (i_current_species ! i) i)
                [0..<n_current_species] (matrix_resize n_current_species n_p_grid) of
           Inl e \<Rightarrow> Inl e
         | Inr new_vmrs_ref \<Rightarrow>
             (case copy_species (xsec this) original_spec_pos i_current_species
                     current_non_linear n_nls_pert i_current_f_grid [0..<n_current_species] 0
                     (tensor4_resize (t_nbooks (xsec this))
                        (nat (int n_current_species
                              + int n_current_nonlinear_species * (int n_nls_pert - 1)))
                        n_current_f_grid (t_ncols (xsec this))) of
                Inl e \<Rightarrow> Inl e
              | Inr new_xsec \<Rightarrow>
                  Inr \<lparr>species = map (\<lambda>i. species this ! i) i_current_species,
                       nonlinear_species = new_nonlinear_species,
                       f_grid = map (\<lambda>i. f_grid this ! i) i_current_f_grid,
                       p_grid = p_grid this,
                       log_p_grid = [],
                       vmrs_ref = new_vmrs_ref,
                       t_ref = t_ref this,
                       t_pert = t_pert this,
                       nls_pert = (if 0 \<noteq> length new_nonlinear_species then nls_pert this else []),
                       xsec = new_xsec\<rparr>))"

text \<open>
  Everything \<^verbatim>\<open>Adapt\<close> does before it assigns to \<^verbatim>\<open>*this\<close>: the checks and the
  construction of the local variable \<^verbatim>\<open>new_table\<close>.
\<close>

definition Adapt_new_table ::
  "'sp GasAbsLookup \<Rightarrow> 'sp list \<Rightarrow> real list \<Rightarrow> error + 'sp GasAbsLookup" where
  "Adapt_new_table this current_species current_f_grid =
     (case set_non_linear (nonlinear_species this) (replicate (length (species this)) 0) of
        Inl e \<Rightarrow> Inl e
      | Inr non_linear \<Rightarrow>
     (case check_table this of
        Inl e \<Rightarrow> Inl e
      | Inr u \<Rightarrow>
     (let original_spec_pos = spec_pos_in_xsec non_linear (length (nls_pert this)) 0
      in if 0 = length current_species then Inl EmptyRequest
         else if \<not> is_increasing current_f_grid then Inl GridNotIncreasing
         else
     (case find_current_species (species this) current_species of
        Inl e \<Rightarrow> Inl e
      | Inr i_current_species \<Rightarrow>
     (let current_non_linear =
            map (\<lambda>i. if non_linear ! i \<noteq> 0 then 1 else 0) i_current_species;
          n_current_nonlinear_species = length (filter (\<lambda>x. x \<noteq> 0) current_non_linear)
      in
     (case find_new_grid_in_old_grid (f_grid this) current_f_grid of
        Inl e \<Rightarrow> Inl e
      | Inr i_current_f_grid \<Rightarrow>
          build_new_table this i_current_species current_non_linear
            n_current_nonlinear_species i_current_f_grid original_spec_pos))))))"

text \<open>
  \<^verbatim>\<open>Adapt\<close> as a step on the state of the object: the result and the table after the
  call. Steps 4 and 5 assign the new table and initialise \<^verbatim>\<open>log_p_grid\<close>; a failure
  leaves before any assignment.
\<close>

definition Adapt ::
  "'sp GasAbsLookup \<Rightarrow> 'sp list \<Rightarrow> real list \<Rightarrow> (error + unit) \<times> 'sp GasAbsLookup" where
  "Adapt this current_species current_f_grid =
     (case Adapt_new_table this current_species current_f_grid of
        Inl e \<Rightarrow> (Inl e, this)
      | Inr new_table \<Rightarrow> (Inr (), new_table\<lparr>log_p_grid := map ln (p_grid new_table)\<rparr>))"

text \<open>
  The number of pages of \<^verbatim>\<open>xsec\<close> that the first \<open>i\<close> species take: the value of
  \<open>sp\<close> when the loops over the species reach the species \<open>i\<close>.
\<close>

definition pages_before :: "int list \<Rightarrow> nat \<Rightarrow> nat \<Rightarrow> nat" where
  "pages_before non_linear n_nls_pert i =
     sum_list (map (\<lambda>nl. if nl \<noteq> 0 then n_nls_pert else 1) (take i non_linear))"

section \<open>Interpolation helpers\<close>

definition bind_err :: "error + 'a \<Rightarrow> ('a \<Rightarrow> error + 'b) \<Rightarrow> error + 'b" where
  "bind_err m f = (case m of Inl e \<Rightarrow> Inl e | Inr x \<Rightarrow> f x)"

text \<open>Element access with the range assertion of the array classes.\<close>

definition vec_get :: "real list \<Rightarrow> int \<Rightarrow> error + real" where
  "vec_get v i = (if 0 \<le> i \<and> i < int (length v) then Inr (v ! nat i) else Inl AssertionFailure)"

definition mat_get :: "Matrix \<Rightarrow> int \<Rightarrow> int \<Rightarrow> error + real" where
  "mat_get m r c =
     (if 0 \<le> r \<and> r < int (m_nrows m) \<and> 0 \<le> c \<and> c < int (m_ncols m)
      then Inr (m_elem m (nat r) (nat c)) else Inl AssertionFailure)"

text \<open>
  Modelled from the spec: \<^verbatim>\<open>gridpos_poly\<close> and \<^verbatim>\<open>interpweights\<close> of
  \<^verbatim>\<open>interpolation_poly.cc\<close>, which is not among the sources. The interpolation is
  local and polynomial: a grid position of order \<open>n\<close> names the \<open>n + 1\<close> consecutive grid
  points around the grid interval that holds the value (the interval that starts at a grid
  point holds that point), each with its Lagrange weight, so that a value on a selected
  grid point gives that point the weight 1. The weights of a two-dimensional
  interpolation are the products of the weights of the two positions, row by row.
\<close>

record GridPosPoly =
  gp_idx :: "nat list"
  gp_w :: "real list"

definition gridpos :: "real list \<Rightarrow> real \<Rightarrow> nat" where
  "gridpos old_grid x =
     (let n = length old_grid;
          reached = filter (\<lambda>i. if old_grid ! 0 \<le> old_grid ! (n - 1)
                                 then old_grid ! i \<le> x else x \<le> old_grid ! i) [0..<n - 1]
      in if reached = [] then 0 else last reached)"

definition lagrange_weight :: "real list \<Rightarrow> real \<Rightarrow> nat \<Rightarrow> nat \<Rightarrow> nat \<Rightarrow> real" where
  "lagrange_weight old_grid x k m i =
     prod_list (map (\<lambda>j. x - old_grid ! (k + j)) (filter (\<lambda>j. j \<noteq> i) [0..<m]))
     / prod_list (map (\<lambda>j. old_grid ! (k + i) - old_grid ! (k + j)) (filter (\<lambda>j. j \<noteq> i) [0..<m]))"

definition gridpos_poly :: "real list \<Rightarrow> real \<Rightarrow> nat \<Rightarrow> error + GridPosPoly" where
  "gridpos_poly old_grid x order =
     (let m = order + 1; n = length old_grid
      in if n < m then Inl AssertionFailure
         else (let k = min (gridpos old_grid x - (m - 1) div 2) (n - m)
               in Inr \<lparr>gp_idx = [k..<k + m],
                        gp_w = map (lagrange_weight old_grid x k m) [0..<m]\<rparr>))"

definition interpweights :: "GridPosPoly \<Rightarrow> real list" where
  "interpweights tc = gp_w tc"

definition interpweights2 :: "GridPosPoly \<Rightarrow> GridPosPoly \<Rightarrow> real list" where
  "interpweights2 tr tc = concat (map (\<lambda>wr. map (\<lambda>wc. wr * wc) (gp_w tc)) (gp_w tr))"

text \<open>
  Modelled from the spec: \<^verbatim>\<open>number_density\<close> of \<^verbatim>\<open>physics_funcs.cc\<close>, which is not
  among the sources: the ideal gas law, \<open>n = p / (k\<^sub>B T)\<close>.
\<close>

definition BOLTZMAN_CONST :: real where
  "BOLTZMAN_CONST = 1380662 / 10 ^ 29"

definition number_density :: "real \<Rightarrow> real \<Rightarrow> real" where
  "number_density p t = p / (BOLTZMAN_CONST * t)"

text \<open>
  Modelled from the spec: \<^verbatim>\<open>find_first_species_tg\<close>, which is not among the sources:
  the first position of a tag group of the given species, or -1. The predicate
  \<open>is_h2o\<close> tells whether a tag group belongs to H2O.
\<close>

definition find_first_species_tg :: "('sp \<Rightarrow> bool) \<Rightarrow> 'sp list \<Rightarrow> int" where
  "find_first_species_tg is_h2o tgs =
     (case filter (\<lambda>i. is_h2o (tgs ! i)) [0..<length tgs] of
        [] \<Rightarrow> - 1
      | i # rest \<Rightarrow> int i)"

section \<open>Extract\<close>

text \<open>Step 2: the checks on the lookup table itself, up to the interpolation orders.\<close>

definition extract_h2o_index :: "('sp \<Rightarrow> bool) \<Rightarrow> 'sp GasAbsLookup \<Rightarrow> error + int" where
  "extract_h2o_index is_h2o this =
     (if length (nonlinear_species this) > 0
      then (let h2o_index = find_first_species_tg is_h2o (species this)
            in if h2o_index = - 1 then Inl NoHumidityReferenceSpecies else Inr h2o_index)
      else Inr (- 1))"

definition extract_table_asserts :: "'sp GasAbsLookup \<Rightarrow> error + unit" where
  "extract_table_asserts this =
     (let n_species = length (species this);
          n_nls = length (nonlinear_species this);
          n_f_grid = length (f_grid this);
          n_p_grid = length (p_grid this);
          n_t_pert = length (t_pert this);
          n_nls_pert = length (nls_pert this);
          a = (if 0 = n_t_pert then 1 else int n_t_pert);
          b = int n_species + int n_nls * (int n_nls_pert - 1)
      in if \<not> (m_nrows (vmrs_ref this) = n_species \<and> m_ncols (vmrs_ref this) = n_p_grid)
           then Inl AssertionFailure
         else if length (t_ref this) \<noteq> n_p_grid then Inl AssertionFailure
         else if \<not> (int (t_nbooks (xsec this)) = a \<and> int (t_npages (xsec this)) = b \<and>
                    t_nrows (xsec this) = n_f_grid \<and> t_ncols (xsec this) = n_p_grid)
           then Inl AssertionFailure
         else Inr ())"

definition extract_order_checks :: "'sp GasAbsLookup \<Rightarrow> nat \<Rightarrow> nat \<Rightarrow> nat \<Rightarrow> error + unit" where
  "extract_order_checks this p_interp_order t_interp_order h2o_interp_order =
     (let n_p_grid = length (p_grid this);
          n_t_pert = length (t_pert this);
          n_nls_pert = length (nls_pert this)
      in if length (log_p_grid this) \<noteq> n_p_grid then Inl TableNotAdapted
         else if n_p_grid < p_interp_order + 1 then Inl InsufficientGridForOrder
         else if n_nls_pert \<noteq> 0 \<and> n_nls_pert < h2o_interp_order + 1
           then Inl InsufficientGridForOrder
         else if n_t_pert \<noteq> 0 \<and> n_t_pert < t_interp_order + 1
           then Inl InsufficientGridForOrder
         else Inr ())"

text \<open>Step 4: the start and the extent of the frequency loop.\<close>

definition extract_f_range :: "nat \<Rightarrow> int \<Rightarrow> error + nat \<times> nat" where
  "extract_f_range n_f_grid f_index =
     (if f_index < 0 then Inr (0, n_f_grid)
      else if f_index \<ge> int n_f_grid then Inl IndexOutOfRange
      else Inr (nat f_index, 1))"

text \<open>Step 5: the check that \<open>p\<close> is inside the pressure grid.\<close>

definition extract_p_range :: "real list \<Rightarrow> real \<Rightarrow> error + unit" where
  "extract_p_range pg p =
     (let n_p_grid = int (length pg)
      in bind_err (vec_get pg 0) (\<lambda>p0.
         bind_err (vec_get pg 1) (\<lambda>p1.
         bind_err (vec_get pg (n_p_grid - 1)) (\<lambda>pl.
         bind_err (vec_get pg (n_p_grid - 2)) (\<lambda>pl2.
           (let p_max = p0 + 0.5 * (p0 - p1);
                p_min = pl - 0.5 * (pl2 - pl)
            in if p > p_max \<or> p < p_min then Inl PressureOutOfRange else Inr ()))))))"

text \<open>
  The check that a temperature offset or a fractional VMR is inside its perturbation grid;
  \<open>err\<close> is the error of the check.
\<close>

definition extract_pert_range :: "error \<Rightarrow> real list \<Rightarrow> real \<Rightarrow> error + unit" where
  "extract_pert_range err pert x =
     (let n = int (length pert)
      in bind_err (vec_get pert 0) (\<lambda>g0.
         bind_err (vec_get pert 1) (\<lambda>g1.
         bind_err (vec_get pert (n - 1)) (\<lambda>gl.
         bind_err (vec_get pert (n - 2)) (\<lambda>gl2.
           (let x_min = g0 - 0.5 * (g1 - g0);
                x_max = gl + 0.5 * (gl - gl2)
            in if x > x_max \<or> x < x_min then Inl err else Inr ()))))))"

text \<open>
  Step 8: the interpolation in T and/or VMR for one species at one pressure level, for all
  frequencies of the frequency range. The views on \<^verbatim>\<open>xsec\<close> assert their ranges. A
  grid position of order \<open>n\<close> holds \<open>n + 1\<close> indices and weights, so the loops over
  \<open>r\<close> and \<open>c\<close> stay inside them.
\<close>

definition species_result ::
  "Tensor4 \<Rightarrow> nat \<Rightarrow> nat \<Rightarrow> bool \<Rightarrow> GridPosPoly \<Rightarrow> GridPosPoly \<Rightarrow> nat \<Rightarrow> nat \<Rightarrow>
   nat \<Rightarrow> nat \<Rightarrow> bool \<Rightarrow> nat \<Rightarrow> error + real list" where
  "species_result xs t_interp_order h2o_interp_order do_T tgp vgp n_nls_pert f_start f_extent
     p_index do_VMR fpi =
     (if \<not> (f_start + f_extent \<le> t_nrows xs \<and> p_index < t_ncols xs)
        then Inl AssertionFailure
      else if do_T
        then (if do_VMR
              then (let itw = interpweights2 tgp vgp
                    in if fpi + n_nls_pert \<le> t_npages xs \<and>
                          list_all (\<lambda>b. b < t_nbooks xs) (gp_idx tgp) \<and>
                          list_all (\<lambda>v. v < n_nls_pert) (gp_idx vgp)
                       then Inr (map (\<lambda>f.
                              sum_list (map (\<lambda>r.
                                sum_list (map (\<lambda>c.
                                  itw ! (r * (h2o_interp_order + 1) + c)
                                  * t_elem xs (gp_idx tgp ! r) (fpi + gp_idx vgp ! c)
                                      (f_start + f) p_index)
                                  [0..<h2o_interp_order + 1]))
                                [0..<t_interp_order + 1]))
                              [0..<f_extent])
                       else Inl AssertionFailure)
              else (let itw = interpweights tgp
                    in if fpi < t_npages xs \<and> list_all (\<lambda>b. b < t_nbooks xs) (gp_idx tgp)
                       then Inr (map (\<lambda>f.
                              sum_list (map (\<lambda>r.
                                itw ! r * t_elem xs (gp_idx tgp ! r) fpi (f_start + f) p_index)
                                [0..<t_interp_order + 1]))
                              [0..<f_extent])
                       else Inl AssertionFailure))
      else (if do_VMR
            then (let itw = interpweights vgp
                  in if 0 < t_nbooks xs \<and> fpi + n_nls_pert \<le> t_npages xs \<and>
                        list_all (\<lambda>v. v < n_nls_pert) (gp_idx vgp)
                     then Inr (map (\<lambda>f.
                            sum_list (map (\<lambda>c.
                              itw ! c * t_elem xs 0 (fpi + gp_idx vgp ! c) (f_start + f) p_index)
                              [0..<h2o_interp_order + 1]))
                            [0..<f_extent])
                     else Inl AssertionFailure)
            else (if 0 < t_nbooks xs \<and> fpi < t_npages xs
                  then Inr (map (\<lambda>f. t_elem xs 0 fpi (f_start + f) p_index) [0..<f_extent])
                  else Inl AssertionFailure)))"

text \<open>
  Step 7: the loop over the species at one pressure level. \<open>fpi\<close> is the first page of the
  current species in \<^verbatim>\<open>xsec\<close>; the loop returns the results of the species and the
  final value of \<open>fpi\<close>.
\<close>

fun species_loop ::
  "Tensor4 \<Rightarrow> nat \<Rightarrow> nat \<Rightarrow> bool \<Rightarrow> GridPosPoly \<Rightarrow> GridPosPoly \<Rightarrow> nat \<Rightarrow> nat \<Rightarrow>
   nat \<Rightarrow> nat \<Rightarrow> int list \<Rightarrow> nat \<Rightarrow> error + real list list \<times> nat" where
  "species_loop xs t_interp_order h2o_interp_order do_T tgp vgp n_nls_pert f_start f_extent
     p_index [] fpi = Inr ([], fpi)"
| "species_loop xs t_interp_order h2o_interp_order do_T tgp vgp n_nls_pert f_start f_extent
     p_index (nl # non_linear) fpi =
     (case species_result xs t_interp_order h2o_interp_order do_T tgp vgp n_nls_pert f_start
             f_extent p_index (nl \<noteq> 0) fpi of
        Inl e \<Rightarrow> Inl e
      | Inr res \<Rightarrow>
          (case species_loop xs t_interp_order h2o_interp_order do_T tgp vgp n_nls_pert f_start
                  f_extent p_index non_linear
                  (if nl \<noteq> 0 then fpi + n_nls_pert else fpi + 1) of
             Inl e \<Rightarrow> Inl e
           | Inr (rs, fpi') \<Rightarrow> Inr (res # rs, fpi')))"

text \<open>
  Step 6: one pass of the loop over the pressure levels of the pressure interpolation: the
  grid positions in temperature and in the H2O VMR at this level, then the species loop.
  \<open>empty_gp\<close> is a grid position that is not set up.
\<close>

definition empty_gp :: GridPosPoly where
  "empty_gp = \<lparr>gp_idx = [], gp_w = []\<rparr>"

definition level_result ::
  "'sp GasAbsLookup \<Rightarrow> nat \<Rightarrow> nat \<Rightarrow> int \<Rightarrow> int list \<Rightarrow> nat \<Rightarrow> nat \<Rightarrow> real \<Rightarrow>
   real list \<Rightarrow> nat \<Rightarrow> error + real list list" where
  "level_result this t_interp_order h2o_interp_order h2o_index non_linear f_start f_extent T
     abs_vmrs this_p_grid_index =
     (let do_T = (length (t_pert this) \<noteq> 0);
          n_nls = length (nonlinear_species this)
      in bind_err
           (if do_T
            then bind_err (vec_get (t_ref this) (int this_p_grid_index)) (\<lambda>effective_T_ref.
                   (let T_offset = T - effective_T_ref
                    in bind_err (extract_pert_range TemperatureOutOfRange (t_pert this) T_offset)
                         (\<lambda>u. gridpos_poly (t_pert this) T_offset t_interp_order)))
            else Inr empty_gp)
           (\<lambda>tgp.
         bind_err
           (if n_nls > 0
            then bind_err (mat_get (vmrs_ref this) h2o_index (int this_p_grid_index))
                   (\<lambda>effective_vmr_ref.
                 bind_err (vec_get abs_vmrs h2o_index) (\<lambda>h2o_vmr.
                   (let VMR_frac = h2o_vmr / effective_vmr_ref
                    in bind_err (extract_pert_range HumidityOutOfRange (nls_pert this) VMR_frac)
                         (\<lambda>u. gridpos_poly (nls_pert this) VMR_frac h2o_interp_order))))
            else Inr empty_gp)
           (\<lambda>vgp.
         bind_err
           (species_loop (xsec this) t_interp_order h2o_interp_order do_T tgp vgp
              (length (nls_pert this)) f_start f_extent this_p_grid_index non_linear 0)
           (\<lambda>(rs, fpi). if fpi = t_npages (xsec this) then Inr rs else Inl AssertionFailure))))"

text \<open>The loop over the pressure levels.\<close>

fun levels_loop :: "(nat \<Rightarrow> error + real list list) \<Rightarrow> nat list \<Rightarrow> error + real list list list" where
  "levels_loop lev [] = Inr []"
| "levels_loop lev (i # idx) =
     (case lev i of
        Inl e \<Rightarrow> Inl e
      | Inr r \<Rightarrow> (case levels_loop lev idx of Inl e \<Rightarrow> Inl e | Inr rs \<Rightarrow> Inr (r # rs)))"

text \<open>
  The interpolation between the pressure levels and the scaling with the number density
  of the species: \<^verbatim>\<open>sga\<close> has \<^verbatim>\<open>f_extent\<close> rows and \<^verbatim>\<open>n_species\<close> columns.
\<close>

definition combine_levels ::
  "real list list list \<Rightarrow> real list \<Rightarrow> nat \<Rightarrow> nat \<Rightarrow> real \<Rightarrow> real list \<Rightarrow> Matrix" where
  "combine_levels xsec_pre_interpolated pitw f_extent n_species n abs_vmrs =
     \<lparr>m_nrows = f_extent, m_ncols = n_species,
      m_elem = (\<lambda>f si.
        if f < f_extent \<and> si < n_species
        then sum_list (map (\<lambda>pi. xsec_pre_interpolated ! pi ! si ! f * pitw ! pi)
                          [0..<length pitw])
             * (n * abs_vmrs ! si)
        else 0)\<rparr>"

definition extract_interpolate ::
  "'sp GasAbsLookup \<Rightarrow> nat \<Rightarrow> nat \<Rightarrow> nat \<Rightarrow> int \<Rightarrow> nat \<Rightarrow> nat \<Rightarrow> int list \<Rightarrow>
   real \<Rightarrow> real \<Rightarrow> real list \<Rightarrow> error + Matrix" where
  "extract_interpolate this p_interp_order t_interp_order h2o_interp_order h2o_index
     f_start f_extent non_linear p T abs_vmrs =
     (let n = number_density p T
      in bind_err (extract_p_range (p_grid this) p) (\<lambda>u.
         bind_err (gridpos_poly (log_p_grid this) (ln p) p_interp_order) (\<lambda>pgp.
         bind_err
           (levels_loop
              (level_result this t_interp_order h2o_interp_order h2o_index non_linear
                 f_start f_extent T abs_vmrs)
              (gp_idx pgp))
           (\<lambda>xsec_pre_interpolated.
              Inr (combine_levels xsec_pre_interpolated (interpweights pgp) f_extent
                     (length (species this)) n abs_vmrs)))))"

text \<open>
  Steps 1 to 3: the checks on the table and on the input variables that come before the
  frequency selection. They return the position of the H2O species (-1 when there is no
  nonlinear species).
\<close>

definition extract_preconditions ::
  "('sp \<Rightarrow> bool) \<Rightarrow> 'sp GasAbsLookup \<Rightarrow> nat \<Rightarrow> nat \<Rightarrow> nat \<Rightarrow> real list \<Rightarrow> error + int" where
  "extract_preconditions is_h2o this p_interp_order t_interp_order h2o_interp_order abs_vmrs =
     bind_err (extract_h2o_index is_h2o this) (\<lambda>h2o_index.
     bind_err (extract_table_asserts this) (\<lambda>u.
     bind_err (extract_order_checks this p_interp_order t_interp_order h2o_interp_order)
       (\<lambda>u.
     if length abs_vmrs \<noteq> length (species this) then Inl DimensionMismatch
     else Inr h2o_index)))"

text \<open>
  \<^verbatim>\<open>Extract\<close>: the checks in the order of the source, the frequency selection, the
  logical array of the nonlinear species, then the interpolation. The orders of
  interpolation are not negative.
\<close>

definition Extract ::
  "('sp \<Rightarrow> bool) \<Rightarrow> 'sp GasAbsLookup \<Rightarrow> nat \<Rightarrow> nat \<Rightarrow> nat \<Rightarrow> int \<Rightarrow> real \<Rightarrow> real \<Rightarrow>
   real list \<Rightarrow> error + Matrix" where
  "Extract is_h2o this p_interp_order t_interp_order h2o_interp_order f_index p T abs_vmrs =
     bind_err (extract_preconditions is_h2o this p_interp_order t_interp_order
                 h2o_interp_order abs_vmrs) (\<lambda>h2o_index.
     bind_err (extract_f_range (length (f_grid this)) f_index) (\<lambda>(f_start, f_extent).
     bind_err (set_non_linear (nonlinear_species this) (replicate (length (species this)) 0))
       (\<lambda>non_linear.
          extract_interpolate this p_interp_order t_interp_order h2o_interp_order h2o_index
            f_start f_extent non_linear p T abs_vmrs)))"

section \<open>The range check of the pressure as the specification words it\<close>

text \<open>
  The specification asks that the pressure lies within
  \<open>[pressureGrid[last] - \<Delta>/2, pressureGrid[0] + \<Delta>/2]\<close> in log space, with the
  adjacent grid spacing at each boundary.
\<close>

definition spec_p_range_log_space :: "real list \<Rightarrow> real \<Rightarrow> bool" where
  "spec_p_range_log_space pg p =
     (let n = length pg
      in ln (pg ! (n - 1)) - 0.5 * (ln (pg ! (n - 2)) - ln (pg ! (n - 1))) \<le> ln p \<and>
         ln p \<le> ln (pg ! 0) + 0.5 * (ln (pg ! 0) - ln (pg ! 1)))"

section \<open>Tables of the scenarios\<close>

text \<open>Species are named by strings in the scenarios; H2O is the species of that name.\<close>

definition is_h2o_name :: "string \<Rightarrow> bool" where
  "is_h2o_name s = (s = ''H2O'')"

text \<open>A table with one species, one frequency and one pressure level.\<close>

definition single_level_table :: "string GasAbsLookup" where
  "single_level_table =
     \<lparr>species = [''O3''], nonlinear_species = [], f_grid = [100],
      p_grid = [1000], log_p_grid = [ln 1000],
      vmrs_ref = \<lparr>m_nrows = 1, m_ncols = 1, m_elem = (\<lambda>i j. 1)\<rparr>,
      t_ref = [250], t_pert = [], nls_pert = [],
      xsec = \<lparr>t_nbooks = 1, t_npages = 1, t_nrows = 1, t_ncols = 1,
               t_elem = (\<lambda>b p r c. 2)\<rparr>\<rparr>"

text \<open>
  The table of the order-0 scenario: the pressures 1000, 500 and 100 Pa, one species, no
  perturbations, two frequencies.
\<close>

definition order0_table :: "string GasAbsLookup" where
  "order0_table =
     \<lparr>species = [''O3''], nonlinear_species = [], f_grid = [100, 200],
      p_grid = [1000, 500, 100], log_p_grid = [ln 1000, ln 500, ln 100],
      vmrs_ref = \<lparr>m_nrows = 1, m_ncols = 3, m_elem = (\<lambda>i j. 1)\<rparr>,
      t_ref = [290, 270, 220], t_pert = [], nls_pert = [],
      xsec = \<lparr>t_nbooks = 1, t_npages = 1, t_nrows = 2, t_ncols = 3,
               t_elem = (\<lambda>b p r c. [[2, 3, 5], [7, 11, 13]] ! r ! c)\<rparr>\<rparr>"

text \<open>
  A table with a nonlinear species and no temperature perturbations, whose \<^verbatim>\<open>xsec\<close> has
  no books.
\<close>

definition humidity_only_table :: "string GasAbsLookup" where
  "humidity_only_table =
     \<lparr>species = [''O3'', ''H2O''], nonlinear_species = [1], f_grid = [100, 200],
      p_grid = [1000, 500], log_p_grid = [],
      vmrs_ref = \<lparr>m_nrows = 2, m_ncols = 2, m_elem = (\<lambda>i j. 1)\<rparr>,
      t_ref = [290, 270], t_pert = [], nls_pert = [0.5, 1, 2],
      xsec = \<lparr>t_nbooks = 0, t_npages = 4, t_nrows = 2, t_ncols = 2,
               t_elem = (\<lambda>b p r c. 0)\<rparr>\<rparr>"

text \<open>A table with two species and no perturbations.\<close>

definition plain_table :: "string GasAbsLookup" where
  "plain_table =
     \<lparr>species = [''O3'', ''H2O''], nonlinear_species = [], f_grid = [100, 200, 300],
      p_grid = [1000, 500], log_p_grid = [],
      vmrs_ref = \<lparr>m_nrows = 2, m_ncols = 2, m_elem = (\<lambda>i j. real (2 * i + j))\<rparr>,
      t_ref = [290, 270], t_pert = [], nls_pert = [],
      xsec = \<lparr>t_nbooks = 1, t_npages = 2, t_nrows = 3, t_ncols = 2,
               t_elem = (\<lambda>b p r c. real (100 * p + 10 * r + c))\<rparr>\<rparr>"

text \<open>
  A table in the full case: temperature perturbations and a nonlinear species with three
  perturbations of the H2O VMR.
\<close>

definition full_table :: "string GasAbsLookup" where
  "full_table =
     \<lparr>species = [''O3'', ''H2O''], nonlinear_species = [1], f_grid = [100, 200, 300],
      p_grid = [1000, 500], log_p_grid = [],
      vmrs_ref = \<lparr>m_nrows = 2, m_ncols = 2, m_elem = (\<lambda>i j. real (2 * i + j + 1))\<rparr>,
      t_ref = [290, 270], t_pert = [- 10, 0, 10], nls_pert = [0.5, 1, 2],
      xsec = \<lparr>t_nbooks = 3, t_npages = 4, t_nrows = 3, t_ncols = 2,
               t_elem = (\<lambda>b p r c. real (1000 * b + 100 * p + 10 * r + c))\<rparr>\<rparr>"

text \<open>A table with one species and an empty frequency grid.\<close>

definition no_frequency_table :: "string GasAbsLookup" where
  "no_frequency_table =
     \<lparr>species = [''O3''], nonlinear_species = [], f_grid = [],
      p_grid = [1000, 500], log_p_grid = [],
      vmrs_ref = \<lparr>m_nrows = 1, m_ncols = 2, m_elem = (\<lambda>i j. 1)\<rparr>,
      t_ref = [290, 270], t_pert = [], nls_pert = [],
      xsec = \<lparr>t_nbooks = 1, t_npages = 1, t_nrows = 0, t_ncols = 2,
               t_elem = (\<lambda>b p r c. 0)\<rparr>\<rparr>"

section \<open>Properties of the grid locator\<close>

lemma scan_old_grid_Inr:
  "scan_old_grid old_grid x j = Inr k \<Longrightarrow>
     j \<le> k \<and> k < length old_grid \<and> \<bar>x - old_grid ! k\<bar> \<le> tolerance \<and>
     (\<forall>l. j \<le> l \<and> l < k \<longrightarrow> \<bar>x - old_grid ! l\<bar> > tolerance)"
proof (induction old_grid x j rule: scan_old_grid.induct)
  case (1 old_grid x j)
  show ?case
  proof (cases "length old_grid \<le> j")
    case True
    with "1.prems" show ?thesis by (simp add: scan_old_grid.simps)
  next
    case inb: False
    show ?thesis
    proof (cases "\<bar>x - old_grid ! j\<bar> > tolerance")
      case False
      with inb "1.prems" show ?thesis by (auto simp: scan_old_grid.simps)
    next
      case far: True
      show ?thesis
      proof (cases "length old_grid \<le> Suc j")
        case True
        with inb far "1.prems" show ?thesis by (simp add: scan_old_grid.simps)
      next
        case False
        with inb far "1.prems" have rec: "scan_old_grid old_grid x (Suc j) = Inr k"
          by (simp add: scan_old_grid.simps)
        from "1.IH" [OF inb far False rec]
        have ih: "Suc j \<le> k" "k < length old_grid" "\<bar>x - old_grid ! k\<bar> \<le> tolerance"
          "\<forall>l. Suc j \<le> l \<and> l < k \<longrightarrow> \<bar>x - old_grid ! l\<bar> > tolerance"
          by auto
        have "\<forall>l. j \<le> l \<and> l < k \<longrightarrow> \<bar>x - old_grid ! l\<bar> > tolerance"
        proof (intro allI impI)
          fix l assume "j \<le> l \<and> l < k"
          then consider "l = j" | "Suc j \<le> l \<and> l < k" by linarith
          then show "\<bar>x - old_grid ! l\<bar> > tolerance" using far ih(4) by cases auto
        qed
        with ih show ?thesis by simp
      qed
    qed
  qed
qed

lemma scan_old_grid_Inl:
  "scan_old_grid old_grid x j = Inl e \<Longrightarrow>
     (e = AssertionFailure \<and> length old_grid \<le> j) \<or>
     (e = GridPointNotFound \<and> j < length old_grid \<and>
      (\<forall>l. j \<le> l \<and> l < length old_grid \<longrightarrow> \<bar>x - old_grid ! l\<bar> > tolerance))"
proof (induction old_grid x j rule: scan_old_grid.induct)
  case (1 old_grid x j)
  show ?case
  proof (cases "length old_grid \<le> j")
    case True
    with "1.prems" show ?thesis by (simp add: scan_old_grid.simps)
  next
    case inb: False
    show ?thesis
    proof (cases "\<bar>x - old_grid ! j\<bar> > tolerance")
      case False
      with inb "1.prems" show ?thesis by (simp add: scan_old_grid.simps)
    next
      case far: True
      show ?thesis
      proof (cases "length old_grid \<le> Suc j")
        case True
        with inb far "1.prems" have "e = GridPointNotFound"
          by (simp add: scan_old_grid.simps)
        moreover have "\<forall>l. j \<le> l \<and> l < length old_grid \<longrightarrow> \<bar>x - old_grid ! l\<bar> > tolerance"
        proof (intro allI impI)
          fix l assume "j \<le> l \<and> l < length old_grid"
          with True have "l = j" by linarith
          with far show "\<bar>x - old_grid ! l\<bar> > tolerance" by simp
        qed
        ultimately show ?thesis using inb by simp
      next
        case False
        with inb far "1.prems" have rec: "scan_old_grid old_grid x (Suc j) = Inl e"
          by (simp add: scan_old_grid.simps)
        from "1.IH" [OF inb far False rec] False
        have e: "e = GridPointNotFound"
          and ih: "\<forall>l. Suc j \<le> l \<and> l < length old_grid \<longrightarrow> \<bar>x - old_grid ! l\<bar> > tolerance"
          by auto
        have "\<forall>l. j \<le> l \<and> l < length old_grid \<longrightarrow> \<bar>x - old_grid ! l\<bar> > tolerance"
        proof (intro allI impI)
          fix l assume "j \<le> l \<and> l < length old_grid"
          then consider "l = j" | "Suc j \<le> l \<and> l < length old_grid" by linarith
          then show "\<bar>x - old_grid ! l\<bar> > tolerance" using far ih by cases auto
        qed
        with e inb show ?thesis by simp
      qed
    qed
  qed
qed

lemma locate_from_Inr:
  "locate_from old_grid new_grid j = Inr pos \<Longrightarrow>
     length pos = length new_grid \<and> sorted pos \<and>
     (\<forall>i<length new_grid. j \<le> pos ! i \<and> pos ! i < length old_grid \<and>
        \<bar>new_grid ! i - old_grid ! (pos ! i)\<bar> \<le> tolerance)"
proof (induction new_grid arbitrary: j pos)
  case Nil
  then show ?case by simp
next
  case (Cons x xs)
  from Cons.prems obtain j' where sc: "scan_old_grid old_grid x j = Inr j'"
    by (auto split: sum.splits)
  with Cons.prems obtain ps where rec: "locate_from old_grid xs j' = Inr ps"
    and pos: "pos = j' # ps"
    by (auto split: sum.splits)
  from scan_old_grid_Inr [OF sc]
  have hd: "j \<le> j'" "j' < length old_grid" "\<bar>x - old_grid ! j'\<bar> \<le> tolerance"
    by auto
  from Cons.IH [OF rec]
  have len: "length ps = length xs" and srt: "sorted ps"
    and tl: "\<forall>i<length xs. j' \<le> ps ! i \<and> ps ! i < length old_grid \<and>
        \<bar>xs ! i - old_grid ! (ps ! i)\<bar> \<le> tolerance"
    by auto
  have "\<forall>p\<in>set ps. j' \<le> p"
  proof
    fix p assume "p \<in> set ps"
    then obtain i where "i < length ps" "ps ! i = p" by (auto simp: in_set_conv_nth)
    with tl len show "j' \<le> p" by auto
  qed
  with srt have s: "sorted (j' # ps)" by simp
  have "\<forall>i<length (x # xs). j \<le> (j' # ps) ! i \<and> (j' # ps) ! i < length old_grid \<and>
        \<bar>(x # xs) ! i - old_grid ! ((j' # ps) ! i)\<bar> \<le> tolerance"
  proof (intro allI impI)
    fix i assume i: "i < length (x # xs)"
    show "j \<le> (j' # ps) ! i \<and> (j' # ps) ! i < length old_grid \<and>
        \<bar>(x # xs) ! i - old_grid ! ((j' # ps) ! i)\<bar> \<le> tolerance"
    proof (cases i)
      case 0
      with hd show ?thesis by simp
    next
      case (Suc i')
      with i tl hd(1) show ?thesis by fastforce
    qed
  qed
  with s len pos show ?case by simp
qed

lemma locate_from_unmatched:
  assumes "j < length old_grid" and "x \<in> set new_grid"
    and "\<forall>k<length old_grid. \<bar>x - old_grid ! k\<bar> > tolerance"
  shows "locate_from old_grid new_grid j = Inl GridPointNotFound"
  using assms
proof (induction new_grid arbitrary: j)
  case Nil
  then show ?case by simp
next
  case (Cons y ys)
  show ?case
  proof (cases "scan_old_grid old_grid y j")
    case (Inl e)
    from scan_old_grid_Inl [OF Inl] Cons.prems(1) have "e = GridPointNotFound" by auto
    with Inl show ?thesis by simp
  next
    case (Inr j')
    from scan_old_grid_Inr [OF Inr]
    have j': "j' < length old_grid" and m: "\<bar>y - old_grid ! j'\<bar> \<le> tolerance" by auto
    with Cons.prems(3) have "x \<noteq> y" by fastforce
    with Cons.prems(2) have "x \<in> set ys" by simp
    from Cons.IH [OF j' this Cons.prems(3)] Inr show ?thesis by simp
  qed
qed

lemma scan_old_grid_finds:
  assumes "j \<le> k" and "k < length old_grid" and "\<bar>x - old_grid ! k\<bar> \<le> tolerance"
  shows "\<exists>j'. scan_old_grid old_grid x j = Inr j'"
proof (cases "scan_old_grid old_grid x j")
  case (Inl e)
  from scan_old_grid_Inl [OF Inl] assms show ?thesis by fastforce
next
  case (Inr j')
  then show ?thesis by simp
qed

lemma locate_from_sorted_complete:
  assumes "sorted old_grid" and "sorted new_grid"
    and "\<forall>x\<in>set new_grid. \<exists>k. j \<le> k \<and> k < length old_grid \<and> \<bar>x - old_grid ! k\<bar> \<le> tolerance"
  shows "\<exists>pos. locate_from old_grid new_grid j = Inr pos"
  using assms(2,3)
proof (induction new_grid arbitrary: j)
  case Nil
  then show ?case by simp
next
  case (Cons x xs)
  from Cons.prems(2) obtain k where k: "j \<le> k" "k < length old_grid"
    "\<bar>x - old_grid ! k\<bar> \<le> tolerance" by auto
  from scan_old_grid_finds [OF k] obtain j' where sc: "scan_old_grid old_grid x j = Inr j'" ..
  from scan_old_grid_Inr [OF sc]
  have j': "j \<le> j'" "j' < length old_grid" "\<bar>x - old_grid ! j'\<bar> \<le> tolerance" by auto
  have "\<forall>y\<in>set xs. \<exists>k. j' \<le> k \<and> k < length old_grid \<and> \<bar>y - old_grid ! k\<bar> \<le> tolerance"
  proof
    fix y assume y: "y \<in> set xs"
    with Cons.prems(2) obtain l where l: "j \<le> l" "l < length old_grid"
      "\<bar>y - old_grid ! l\<bar> \<le> tolerance" by auto
    from y Cons.prems(1) have xy: "x \<le> y" by simp
    show "\<exists>k. j' \<le> k \<and> k < length old_grid \<and> \<bar>y - old_grid ! k\<bar> \<le> tolerance"
    proof (cases "j' \<le> l")
      case True
      with l show ?thesis by blast
    next
      case False
      then have "l \<le> j'" by simp
      with assms(1) j'(2) have "old_grid ! l \<le> old_grid ! j'" by (simp add: sorted_nth_mono)
      with l(3) j'(3) xy have "\<bar>y - old_grid ! j'\<bar> \<le> tolerance" by linarith
      with j'(2) show ?thesis by blast
    qed
  qed
  moreover from Cons.prems(1) have "sorted xs" by simp
  ultimately obtain ps where "locate_from old_grid xs j' = Inr ps"
    using Cons.IH by blast
  with sc show ?case by simp
qed

lemma find_new_grid_in_old_grid_positions:
  assumes "find_new_grid_in_old_grid old_grid new_grid = Inr pos"
  shows "length pos = length new_grid" and "sorted pos"
    and "i < length new_grid \<Longrightarrow> pos ! i < length old_grid"
    and "i < length new_grid \<Longrightarrow> \<bar>new_grid ! i - old_grid ! (pos ! i)\<bar> \<le> 1"
  using locate_from_Inr [OF assms [unfolded find_new_grid_in_old_grid_def]]
  by (simp_all add: tolerance_def)

lemma find_new_grid_in_old_grid_unmatched:
  assumes "old_grid \<noteq> []" and "x \<in> set new_grid"
    and "\<forall>k<length old_grid. \<bar>x - old_grid ! k\<bar> > 1"
  shows "find_new_grid_in_old_grid old_grid new_grid = Inl GridPointNotFound"
  unfolding find_new_grid_in_old_grid_def
  using assms by (intro locate_from_unmatched [where x = x]) (simp_all add: tolerance_def)

lemma find_new_grid_in_old_grid_sorted:
  assumes "sorted old_grid" and "sorted new_grid"
    and "\<forall>x\<in>set new_grid. \<exists>k<length old_grid. \<bar>x - old_grid ! k\<bar> \<le> 1"
  shows "\<exists>pos. find_new_grid_in_old_grid old_grid new_grid = Inr pos"
  unfolding find_new_grid_in_old_grid_def
  using assms by (intro locate_from_sorted_complete) (simp_all add: tolerance_def)

lemma find_new_grid_in_old_grid_scenario:
  "find_new_grid_in_old_grid [100, 200, 300] [100.4, 299.6] = Inr [0, 2]"
  "find_new_grid_in_old_grid [100, 200, 300] [250] = Inl GridPointNotFound"
  by (simp_all add: find_new_grid_in_old_grid_def scan_old_grid.simps tolerance_def)

text \<open>
  Claim C4. On a sorted old grid that is not empty the locator returns positions within the
  tolerance of 1, found by one forward scan, and fails with \<open>GridPointNotFound\<close> when a new
  grid point has no match (the four lemmas above). On an empty old grid it does not: the
  loop condition reads \<^verbatim>\<open>old_grid[0]\<close> before the length of the old grid is looked at,
  so a new grid point that cannot be found ends in the range assertion of the element
  access, not in the error \<open>GridPointNotFound\<close> that the function documents. Adapt reaches
  this with a table whose frequency grid is empty, which passes its checks.
\<close>

theorem C4_find_new_grid_empty_old_grid:
  "find_new_grid_in_old_grid [] [250] = Inl AssertionFailure \<and>
   check_table no_frequency_table = Inr () \<and>
   fst (Adapt no_frequency_table [''O3''] [250]) = Inl AssertionFailure"
proof -
  have "isl (Adapt_new_table no_frequency_table [''O3''] [250])"
    and "projl (Adapt_new_table no_frequency_table [''O3''] [250]) = AssertionFailure"
    by code_simp+
  then have "Adapt_new_table no_frequency_table [''O3''] [250] = Inl AssertionFailure"
    by (cases "Adapt_new_table no_frequency_table [''O3''] [250]") simp_all
  then have "fst (Adapt no_frequency_table [''O3''] [250]) = Inl AssertionFailure"
    by (simp add: Adapt_def)
  moreover have "check_table no_frequency_table = Inr ()"
    by code_simp
  moreover have "find_new_grid_in_old_grid [] [250] = Inl AssertionFailure"
    by (simp add: find_new_grid_in_old_grid_def scan_old_grid.simps)
  ultimately show ?thesis by simp
qed

section \<open>Properties of Extract\<close>

lemma extract_p_range_single:
  "length pg = 1 \<Longrightarrow> extract_p_range pg p = Inl AssertionFailure"
  by (simp add: extract_p_range_def bind_err_def vec_get_def)

lemma extract_pert_range_single:
  "length pert = 1 \<Longrightarrow> extract_pert_range err pert x = Inl AssertionFailure"
  by (simp add: extract_pert_range_def bind_err_def vec_get_def)

lemma is_decreasing_nth:
  "is_decreasing pg \<Longrightarrow> i \<le> j \<Longrightarrow> j < length pg \<Longrightarrow> pg ! j \<le> pg ! i"
  unfolding is_decreasing_def
  by (cases "i = j") (auto simp: sorted_wrt_iff_nth_less less_imp_le)

lemma extract_p_range_iff:
  assumes "2 \<le> length pg"
  shows "extract_p_range pg p =
     (if p > pg ! 0 + 0.5 * (pg ! 0 - pg ! 1) \<or>
         p < pg ! (length pg - 1) - 0.5 * (pg ! (length pg - 2) - pg ! (length pg - 1))
      then Inl PressureOutOfRange else Inr ())"
proof -
  have n: "nat (int (length pg) - 1) = length pg - 1" "nat (int (length pg) - 2) = length pg - 2"
    by simp_all
  from assms have g: "vec_get pg 0 = Inr (pg ! 0)" "vec_get pg 1 = Inr (pg ! 1)"
    "vec_get pg (int (length pg) - 1) = Inr (pg ! (length pg - 1))"
    "vec_get pg (int (length pg) - 2) = Inr (pg ! (length pg - 2))"
    unfolding vec_get_def n by auto
  show ?thesis
    by (simp add: extract_p_range_def bind_err_def g Let_def)
qed

lemma ln_4_eq: "ln (4::real) = 2 * ln 2"
proof -
  have "ln ((2::real) ^ 2) = real 2 * ln 2" by (rule ln_realpow)
  then show ?thesis by simp
qed

lemma Extract_reaches_p_range:
  assumes "extract_preconditions is_h2o this po to ho abs_vmrs = Inr h2o_index"
    and "extract_f_range (length (f_grid this)) f_index = Inr (f_start, f_extent)"
    and "set_non_linear (nonlinear_species this) (replicate (length (species this)) 0)
           = Inr non_linear"
    and "extract_p_range (p_grid this) p = Inl e"
  shows "Extract is_h2o this po to ho f_index p T abs_vmrs = Inl e"
  using assms by (simp add: Extract_def extract_interpolate_def bind_err_def)

lemma Extract_shape:
  assumes "Extract is_h2o this po to ho f_index p T abs_vmrs = Inr sga"
  shows "m_nrows sga = (if f_index < 0 then length (f_grid this) else 1)"
    and "m_ncols sga = length (species this)"
proof -
  from assms obtain f_start f_extent xpi pitw n where
    fr: "extract_f_range (length (f_grid this)) f_index = Inr (f_start, f_extent)"
    and sga: "sga = combine_levels xpi pitw f_extent (length (species this)) n abs_vmrs"
    by (auto simp: Extract_def extract_interpolate_def bind_err_def Let_def
        split: sum.splits prod.splits)
  from fr have "f_extent = (if f_index < 0 then length (f_grid this) else 1)"
    by (auto simp: extract_f_range_def split: if_splits)
  with sga show "m_nrows sga = (if f_index < 0 then length (f_grid this) else 1)"
    and "m_ncols sga = length (species this)"
    by (simp_all add: combine_levels_def)
qed

lemma Extract_f_index_too_high:
  assumes "extract_preconditions is_h2o this po to ho abs_vmrs = Inr h2o_index"
    and "int (length (f_grid this)) \<le> f_index"
  shows "Extract is_h2o this po to ho f_index p T abs_vmrs = Inl IndexOutOfRange"
  using assms by (simp add: Extract_def bind_err_def extract_f_range_def)

lemma gridpos_poly_at_500:
  "gridpos_poly [ln 1000, ln 500, ln 100] (ln 500) 0 = Inr \<lparr>gp_idx = [1], gp_w = [1]\<rparr>"
  by (simp add: gridpos_poly_def gridpos_def lagrange_weight_def upt_conv_Cons)

lemma Extract_order0_at_500:
  assumes "p_grid this = [1000, 500, 100]" and "log_p_grid this = map ln (p_grid this)"
    and "length (species this) = 1" and "nonlinear_species this = []"
    and "t_pert this = []" and "nls_pert this = []"
    and "m_nrows (vmrs_ref this) = 1" and "m_ncols (vmrs_ref this) = 3"
    and "length (t_ref this) = 3"
    and "t_nbooks (xsec this) = 1" and "t_npages (xsec this) = 1"
    and "t_nrows (xsec this) = length (f_grid this)" and "t_ncols (xsec this) = 3"
    and "f_index < int (length (f_grid this))"
  shows "Extract is_h2o this 0 t_ord h_ord f_index 500 T [vmr0] =
     Inr (combine_levels
            [[map (\<lambda>f. t_elem (xsec this) 0 0 ((if f_index < 0 then 0 else nat f_index) + f) 1)
                [0..<(if f_index < 0 then length (f_grid this) else 1)]]]
            [1] (if f_index < 0 then length (f_grid this) else 1) 1
            (number_density 500 T) [vmr0])"
  using assms
  apply (simp add: Extract_def bind_err_def extract_preconditions_def extract_h2o_index_def
      extract_table_asserts_def extract_order_checks_def extract_f_range_def
      extract_interpolate_def extract_p_range_def vec_get_def gridpos_poly_at_500
      level_result_def empty_gp_def species_result_def interpweights_def Let_def)
  by linarith

lemma extract_table_asserts_log_p_grid:
  "extract_table_asserts (this\<lparr>log_p_grid := l\<rparr>) = extract_table_asserts this"
  by (simp add: extract_table_asserts_def Let_def cong: if_cong)

text \<open>
  Claim C9. The checks of the interpolation orders do not keep the range checks inside
  their arrays. A table with one pressure level passes every check before the range check
  of the pressure with the order 0; the range check then reads \<^verbatim>\<open>p_grid[1]\<close> and
  \<^verbatim>\<open>p_grid[n_p_grid-2]\<close>, which are outside the pressure grid, so the call ends in the
  range assertion of the element access.
\<close>

theorem C9_single_pressure_level:
  "extract_preconditions is_h2o_name single_level_table 0 0 0 [1] = Inr (- 1) \<and>
   extract_p_range (p_grid single_level_table) 1000 = Inl AssertionFailure \<and>
   Extract is_h2o_name single_level_table 0 0 0 (- 1) 1000 250 [1] = Inl AssertionFailure"
  by (simp add: Extract_def extract_preconditions_def extract_h2o_index_def
      extract_table_asserts_def extract_order_checks_def extract_f_range_def
      extract_interpolate_def extract_p_range_def bind_err_def vec_get_def
      single_level_table_def)

text \<open>
  Claim C6, as the specification states it: the allowed interval of the pressure is
  evaluated in log space. With the pressure grid 4, 1 the pressure 6 lies inside the
  interval taken in log space (its upper end is 8), and the range check refuses it.
\<close>

theorem C6_log_space_counterexample:
  "spec_p_range_log_space [4, 1] 6 \<and> extract_p_range [4, 1] 6 = Inl PressureOutOfRange"
proof -
  have "ln (6::real) \<le> ln 8" by simp
  also have "ln (8::real) = ln (2 ^ 3)" by simp
  also have "\<dots> = real 3 * ln 2" by (rule ln_realpow)
  finally have up: "ln (6::real) \<le> 3 * ln 2" by simp
  have lo: "0 \<le> ln (6::real)" "0 \<le> ln (2::real)" by simp_all
  have low: "- ln (2::real) \<le> ln 6" using lo by linarith
  have "spec_p_range_log_space [4, 1] 6"
    using up low by (simp add: spec_p_range_log_space_def ln_4_eq)
  moreover have "extract_p_range [4, 1] 6 = Inl PressureOutOfRange"
    by (simp add: extract_p_range_def bind_err_def vec_get_def)
  ultimately show ?thesis by simp
qed

text \<open>
  Claim C6, amended: the interval is taken on the pressures themselves. For every table with
  at least two pressure levels and a decreasing pressure grid, the pressure
  \<open>p_grid[0] + 0.5 (p_grid[0] - p_grid[1])\<close> passes the range check; the check passes
  exactly for the pressures from \<open>p_grid[last] - 0.5 (p_grid[last-1] - p_grid[last])\<close> to
  that bound; and a call of Extract that passes the checks before it fails with
  \<open>PressureOutOfRange\<close> for every pressure outside.
\<close>

theorem C6_pressure_range:
  assumes "2 \<le> length (p_grid this)" and "is_decreasing (p_grid this)"
    and "extract_preconditions is_h2o this po to ho abs_vmrs = Inr h2o_index"
    and "extract_f_range (length (f_grid this)) f_index = Inr (f_start, f_extent)"
    and "set_non_linear (nonlinear_species this) (replicate (length (species this)) 0)
           = Inr non_linear"
    and "p_max = p_grid this ! 0 + 0.5 * (p_grid this ! 0 - p_grid this ! 1)"
    and "p_min = p_grid this ! (length (p_grid this) - 1)
           - 0.5 * (p_grid this ! (length (p_grid this) - 2)
                    - p_grid this ! (length (p_grid this) - 1))"
  shows "extract_p_range (p_grid this) p_max = Inr () \<and>
     (extract_p_range (p_grid this) p = Inr () \<longleftrightarrow> p_min \<le> p \<and> p \<le> p_max) \<and>
     (p > p_max \<or> p < p_min \<longrightarrow>
        Extract is_h2o this po to ho f_index p T abs_vmrs = Inl PressureOutOfRange)"
proof -
  let ?pg = "p_grid this"
  let ?n = "length ?pg"
  have d1: "?pg ! 1 \<le> ?pg ! 0" using assms(1,2) by (intro is_decreasing_nth) simp_all
  have d2: "?pg ! (?n - 1) \<le> ?pg ! (?n - 2)"
    using assms(1,2) by (intro is_decreasing_nth) simp_all
  have d3: "?pg ! (?n - 1) \<le> ?pg ! 0"
    using assms(1,2) by (intro is_decreasing_nth) simp_all
  have "p_min \<le> ?pg ! (?n - 1)" unfolding assms(7) using d2 by simp
  moreover have "?pg ! 0 \<le> p_max" unfolding assms(6) using d1 by simp
  ultimately have order: "p_min \<le> p_max" using d3 by linarith
  have iff: "extract_p_range ?pg q = Inr () \<longleftrightarrow> p_min \<le> q \<and> q \<le> p_max" for q
    using assms(6,7) by (auto simp: extract_p_range_iff [OF assms(1)])
  have "extract_p_range ?pg p_max = Inr ()" using iff [of p_max] order by simp
  moreover have "Extract is_h2o this po to ho f_index p T abs_vmrs = Inl PressureOutOfRange"
    if "p > p_max \<or> p < p_min"
  proof -
    from that assms(6,7) have "extract_p_range ?pg p = Inl PressureOutOfRange"
      by (auto simp: extract_p_range_iff [OF assms(1)])
    with assms(3,4,5) show ?thesis by (rule Extract_reaches_p_range)
  qed
  ultimately show ?thesis using iff [of p] by blast
qed

theorem C6_pressure_range_witness:
  "extract_p_range (p_grid order0_table) 1250 = Inr () \<and>
   extract_p_range (p_grid order0_table) 1251 = Inl PressureOutOfRange \<and>
   Extract is_h2o_name order0_table 0 0 0 (- 1) 1251 250 [1] = Inl PressureOutOfRange \<and>
   Extract is_h2o_name order0_table 0 0 0 (- 1) (- 101) 250 [1] = Inl PressureOutOfRange"
proof -
  have h1: "2 \<le> length (p_grid order0_table)" by (simp add: order0_table_def)
  have h2: "is_decreasing (p_grid order0_table)"
    by (simp add: order0_table_def is_decreasing_def)
  have h3: "extract_preconditions is_h2o_name order0_table 0 0 0 [1] = Inr (- 1)"
    by (simp add: extract_preconditions_def extract_h2o_index_def extract_table_asserts_def
        extract_order_checks_def bind_err_def order0_table_def)
  have h4: "extract_f_range (length (f_grid order0_table)) (- 1) = Inr (0, 2)"
    by (simp add: extract_f_range_def order0_table_def)
  have h5: "set_non_linear (nonlinear_species order0_table)
              (replicate (length (species order0_table)) 0) = Inr [0]"
    by (simp add: order0_table_def)
  have h6: "(1250::real) = p_grid order0_table ! 0
              + 0.5 * (p_grid order0_table ! 0 - p_grid order0_table ! 1)"
    by (simp add: order0_table_def)
  have h7: "(- 100::real) = p_grid order0_table ! (length (p_grid order0_table) - 1)
           - 0.5 * (p_grid order0_table ! (length (p_grid order0_table) - 2)
                    - p_grid order0_table ! (length (p_grid order0_table) - 1))"
    by (simp add: order0_table_def)
  note c = C6_pressure_range [OF h1 h2 h3 h4 h5 h6 h7]
  from c [of 1251 250] c [of "- 101" 250]
  have "extract_p_range (p_grid order0_table) 1250 = Inr ()"
    and "extract_p_range (p_grid order0_table) 1251 \<noteq> Inr ()"
    and "Extract is_h2o_name order0_table 0 0 0 (- 1) 1251 250 [1] = Inl PressureOutOfRange"
    and "Extract is_h2o_name order0_table 0 0 0 (- 1) (- 101) 250 [1] = Inl PressureOutOfRange"
    by simp_all
  moreover have "extract_p_range (p_grid order0_table) 1251 = Inl PressureOutOfRange"
    by (simp add: extract_p_range_def bind_err_def vec_get_def order0_table_def)
  ultimately show ?thesis by simp
qed

text \<open>
  Claim C5. For every call of Extract that passes the checks on the table and on the input
  variables: a frequency index at or above the number of frequencies fails with
  \<open>IndexOutOfRange\<close>, and every result has one row for each selected frequency (all
  frequencies for a negative index, one otherwise) and one column for each species.
\<close>

theorem C5_frequency_selection:
  assumes "extract_preconditions is_h2o this po to ho abs_vmrs = Inr h2o_index"
  shows "(int (length (f_grid this)) \<le> f_index \<longrightarrow>
            Extract is_h2o this po to ho f_index p T abs_vmrs = Inl IndexOutOfRange) \<and>
         (\<forall>sga. Extract is_h2o this po to ho f_index p T abs_vmrs = Inr sga \<longrightarrow>
            m_nrows sga = (if f_index < 0 then length (f_grid this) else 1) \<and>
            m_ncols sga = length (species this))"
proof (intro conjI impI allI)
  assume "int (length (f_grid this)) \<le> f_index"
  with assms show "Extract is_h2o this po to ho f_index p T abs_vmrs = Inl IndexOutOfRange"
    by (rule Extract_f_index_too_high)
next
  fix sga assume "Extract is_h2o this po to ho f_index p T abs_vmrs = Inr sga"
  then show "m_nrows sga = (if f_index < 0 then length (f_grid this) else 1)"
    by (rule Extract_shape)
next
  fix sga assume "Extract is_h2o this po to ho f_index p T abs_vmrs = Inr sga"
  then show "m_ncols sga = length (species this)"
    by (rule Extract_shape)
qed

theorem C5_frequency_selection_witness:
  "Extract is_h2o_name order0_table 0 0 0 2 500 250 [1] = Inl IndexOutOfRange \<and>
   (\<exists>sga. Extract is_h2o_name order0_table 0 0 0 (- 1) 500 250 [1] = Inr sga \<and>
      m_nrows sga = 2 \<and> m_ncols sga = 1) \<and>
   (\<exists>sga. Extract is_h2o_name order0_table 0 0 0 1 500 250 [1] = Inr sga \<and>
      m_nrows sga = 1 \<and> m_ncols sga = 1)"
proof -
  have pre: "extract_preconditions is_h2o_name order0_table 0 0 0 [1] = Inr (- 1)"
    by (simp add: extract_preconditions_def extract_h2o_index_def extract_table_asserts_def
        extract_order_checks_def bind_err_def order0_table_def)
  note c = C5_frequency_selection [OF pre]
  have a: "\<exists>sga. Extract is_h2o_name order0_table 0 0 0 (- 1) 500 250 [1] = Inr sga"
    by (subst Extract_order0_at_500) (simp_all add: order0_table_def)
  have b: "\<exists>sga. Extract is_h2o_name order0_table 0 0 0 1 500 250 [1] = Inr sga"
    by (subst Extract_order0_at_500) (simp_all add: order0_table_def)
  from a c [of "- 1" 500 250]
  have "\<exists>sga. Extract is_h2o_name order0_table 0 0 0 (- 1) 500 250 [1] = Inr sga \<and>
      m_nrows sga = 2 \<and> m_ncols sga = 1"
    by (auto simp: order0_table_def)
  moreover from b c [of 1 500 250]
  have "\<exists>sga. Extract is_h2o_name order0_table 0 0 0 1 500 250 [1] = Inr sga \<and>
      m_nrows sga = 1 \<and> m_ncols sga = 1"
    by (auto simp: order0_table_def)
  moreover from c [of 2 500 250]
  have "Extract is_h2o_name order0_table 0 0 0 2 500 250 [1] = Inl IndexOutOfRange"
    by (simp add: order0_table_def)
  ultimately show ?thesis by blast
qed

text \<open>
  Claim C1. For a table with the pressure grid 1000, 500, 100 Pa, one species, no
  temperature perturbations and no nonlinear species, Extract with the pressure
  interpolation order 0 at 500 Pa and a temperature above 0 returns, for every selected
  frequency, the coefficient stored for that frequency at the pressure level 500 Pa times
  the number density at (500, T) times the VMR of the species.
\<close>

theorem C1_order0_at_500:
  assumes "p_grid this = [1000, 500, 100]" and "log_p_grid this = map ln (p_grid this)"
    and "length (species this) = 1" and "nonlinear_species this = []"
    and "t_pert this = []" and "nls_pert this = []"
    and "m_nrows (vmrs_ref this) = 1" and "m_ncols (vmrs_ref this) = 3"
    and "length (t_ref this) = 3"
    and "t_nbooks (xsec this) = 1" and "t_npages (xsec this) = 1"
    and "t_nrows (xsec this) = length (f_grid this)" and "t_ncols (xsec this) = 3"
    and "f_index < int (length (f_grid this))" and "0 < T"
    and "f_start = (if f_index < 0 then 0 else nat f_index)"
  shows "\<exists>sga. Extract is_h2o this 0 t_ord h_ord f_index 500 T [vmr0] = Inr sga \<and>
     m_nrows sga = (if f_index < 0 then length (f_grid this) else 1) \<and> m_ncols sga = 1 \<and>
     (\<forall>f<m_nrows sga.
        m_elem sga f 0 = t_elem (xsec this) 0 0 (f_start + f) 1 * number_density 500 T * vmr0)"
  unfolding Extract_order0_at_500 [OF assms(1-14)]
  using assms(16) by (simp add: combine_levels_def)

theorem C1_order0_at_500_witness:
  "\<exists>sga. Extract is_h2o_name order0_table 0 0 0 (- 1) 500 250 [1 / 100] = Inr sga \<and>
     m_nrows sga = 2 \<and> m_ncols sga = 1 \<and>
     m_elem sga 0 0 = 3 * number_density 500 250 * (1 / 100) \<and>
     m_elem sga 1 0 = 11 * number_density 500 250 * (1 / 100)"
proof -
  have "\<exists>sga. Extract is_h2o_name order0_table 0 0 0 (- 1) 500 250 [1 / 100] = Inr sga \<and>
     m_nrows sga = (if (- 1::int) < 0 then length (f_grid order0_table) else 1) \<and>
     m_ncols sga = 1 \<and>
     (\<forall>f<m_nrows sga.
        m_elem sga f 0 = t_elem (xsec order0_table) 0 0 (0 + f) 1 * number_density 500 250 * (1 / 100))"
    by (rule C1_order0_at_500) (simp_all add: order0_table_def)
  then obtain sga where s: "Extract is_h2o_name order0_table 0 0 0 (- 1) 500 250 [1 / 100] = Inr sga"
    "m_nrows sga = 2" "m_ncols sga = 1"
    and e: "\<forall>f<m_nrows sga.
        m_elem sga f 0 = t_elem (xsec order0_table) 0 0 (0 + f) 1 * number_density 500 250 * (1 / 100)"
    by (auto simp: order0_table_def)
  from e s(2) have "m_elem sga 0 0 = 3 * number_density 500 250 * (1 / 100)"
    and "m_elem sga 1 0 = 11 * number_density 500 250 * (1 / 100)"
    by (simp_all add: order0_table_def)
  with s show ?thesis by blast
qed

lemma number_density_ideal_gas:
  "number_density p T = (1 / BOLTZMAN_CONST) * (p / T)"
  by (simp add: number_density_def)

section \<open>Properties of Adapt\<close>

lemma fold_err_Inr_induct:
  assumes "fold_err f xs s = Inr s'" and "P s"
    and "\<And>x t t'. x \<in> set xs \<Longrightarrow> P t \<Longrightarrow> f x t = Inr t' \<Longrightarrow> P t'"
  shows "P s'"
  using assms
proof (induction xs arbitrary: s)
  case Nil
  then show ?case by simp
next
  case (Cons x xs)
  from Cons.prems(1) obtain t where t: "f x s = Inr t" and r: "fold_err f xs t = Inr s'"
    by (auto split: sum.splits)
  have "P t" using Cons.prems(2,3) t by auto
  with r show ?case using Cons.IH Cons.prems(3) by auto
qed

lemma copy_xsec_block_dims:
  assumes "copy_xsec_block old sp orig n_v i_f pos_f new = Inr new'"
  shows "t_nbooks new' = t_nbooks new" "t_npages new' = t_npages new"
    "t_nrows new' = t_nrows new" "t_ncols new' = t_ncols new"
  using assms by (auto simp: copy_xsec_block_def split: if_splits)

lemma copy_species_dims:
  assumes "copy_species old osp ics cnl nlsp icf is sp new = Inr new'"
  shows "t_nbooks new' = t_nbooks new \<and> t_npages new' = t_npages new \<and>
    t_nrows new' = t_nrows new \<and> t_ncols new' = t_ncols new"
  using assms
proof (induction "is" arbitrary: sp new)
  case Nil
  then show ?case by simp
next
  case (Cons i_s rest)
  let ?n_v = "if cnl ! i_s \<noteq> 0 then nlsp else 1"
  from Cons.prems obtain mid where
    m: "fold_err (\<lambda>i_f. copy_xsec_block old sp (osp ! (ics ! i_s)) ?n_v i_f (icf ! i_f))
          [0..<length icf] new = Inr mid"
    and r: "copy_species old osp ics cnl nlsp icf rest (sp + ?n_v) mid = Inr new'"
    by (auto simp: Let_def split: sum.splits)
  have "t_nbooks mid = t_nbooks new \<and> t_npages mid = t_npages new \<and>
    t_nrows mid = t_nrows new \<and> t_ncols mid = t_ncols new"
    by (rule fold_err_Inr_induct [OF m]) (auto dest: copy_xsec_block_dims)
  with Cons.IH [OF r] show ?case by simp
qed

lemma copy_vmrs_row_dims:
  assumes "copy_vmrs_row old src dst new = Inr new'"
  shows "m_nrows new' = m_nrows new" "m_ncols new' = m_ncols new"
  using assms by (auto simp: copy_vmrs_row_def split: if_splits)

lemma build_new_table_Inr:
  assumes "build_new_table this ics cnl ncnl icf osp = Inr nt"
  shows "species nt = map (\<lambda>i. species this ! i) ics"
    and "nonlinear_species nt = map int (filter (\<lambda>i. cnl ! i \<noteq> 0) [0..<length ics])"
    and "f_grid nt = map (\<lambda>i. f_grid this ! i) icf"
    and "p_grid nt = p_grid this" and "log_p_grid nt = []"
    and "t_ref nt = t_ref this" and "t_pert nt = t_pert this"
    and "nls_pert nt = (if nonlinear_species nt \<noteq> [] then nls_pert this else [])"
    and "fold_err (\<lambda>i. copy_vmrs_row (vmrs_ref this) (ics ! i) i) [0..<length ics]
           (matrix_resize (length ics) (length (p_grid this))) = Inr (vmrs_ref nt)"
    and "copy_species (xsec this) osp ics cnl (length (nls_pert this)) icf [0..<length ics] 0
           (tensor4_resize (t_nbooks (xsec this))
              (nat (int (length ics) + int ncnl * (int (length (nls_pert this)) - 1)))
              (length icf) (t_ncols (xsec this))) = Inr (xsec nt)"
  using assms
  by (auto simp: build_new_table_def Let_def split: sum.splits)

lemma build_new_table_dims:
  assumes "build_new_table this ics cnl ncnl icf osp = Inr nt"
  shows "t_nbooks (xsec nt) = t_nbooks (xsec this)"
    and "t_npages (xsec nt) = nat (int (length ics) + int ncnl * (int (length (nls_pert this)) - 1))"
    and "t_nrows (xsec nt) = length icf"
    and "t_ncols (xsec nt) = t_ncols (xsec this)"
    and "m_nrows (vmrs_ref nt) = length ics"
    and "m_ncols (vmrs_ref nt) = length (p_grid this)"
proof -
  note b = build_new_table_Inr [OF assms]
  from copy_species_dims [OF b(10)]
  show "t_nbooks (xsec nt) = t_nbooks (xsec this)"
    and "t_npages (xsec nt) = nat (int (length ics) + int ncnl * (int (length (nls_pert this)) - 1))"
    and "t_nrows (xsec nt) = length icf"
    and "t_ncols (xsec nt) = t_ncols (xsec this)"
    by (simp_all add: tensor4_resize_def)
  have "m_nrows (vmrs_ref nt) = length ics \<and> m_ncols (vmrs_ref nt) = length (p_grid this)"
    by (rule fold_err_Inr_induct [OF b(9)]) (auto simp: matrix_resize_def dest: copy_vmrs_row_dims)
  then show "m_nrows (vmrs_ref nt) = length ics"
    and "m_ncols (vmrs_ref nt) = length (p_grid this)" by simp_all
qed

lemma Adapt_new_table_Inr:
  assumes "Adapt_new_table this cs cf = Inr nt"
  obtains non_linear ics icf where
    "set_non_linear (nonlinear_species this) (replicate (length (species this)) 0) = Inr non_linear"
    and "check_table this = Inr ()"
    and "cs \<noteq> []" and "is_increasing cf"
    and "find_current_species (species this) cs = Inr ics"
    and "find_new_grid_in_old_grid (f_grid this) cf = Inr icf"
    and "build_new_table this ics (map (\<lambda>i. if non_linear ! i \<noteq> 0 then 1 else 0) ics)
           (length (filter (\<lambda>x. x \<noteq> 0) (map (\<lambda>i. if non_linear ! i \<noteq> (0::int) then 1 else (0::int)) ics)))
           icf (spec_pos_in_xsec non_linear (length (nls_pert this)) 0) = Inr nt"
  using assms
  by (auto simp: Adapt_new_table_def Let_def split: sum.splits if_splits)

lemma Adapt_Inl:
  "fst (Adapt this cs cf) = Inl e \<Longrightarrow> snd (Adapt this cs cf) = this"
  by (auto simp: Adapt_def split: sum.splits)

lemma Adapt_Inr:
  "Adapt_new_table this cs cf = Inr nt \<Longrightarrow>
     Adapt this cs cf = (Inr (), nt\<lparr>log_p_grid := map ln (p_grid nt)\<rparr>)"
  by (simp add: Adapt_def)

lemma Adapt_fst_Inr:
  "fst (Adapt this cs cf) = Inr u \<Longrightarrow> \<exists>nt. Adapt_new_table this cs cf = Inr nt"
  by (auto simp: Adapt_def split: sum.splits)

lemma Adapt_not_isl:
  assumes "\<not> isl (Adapt_new_table this cs cf)"
  shows "fst (Adapt this cs cf) = Inr ()"
    and "snd (Adapt this cs cf) =
      (projr (Adapt_new_table this cs cf))
        \<lparr>log_p_grid := map ln (p_grid (projr (Adapt_new_table this cs cf)))\<rparr>"
  using assms by (cases "Adapt_new_table this cs cf"; simp add: Adapt_def)+

lemma distinct_singleton_set:
  "distinct ys \<Longrightarrow> set ys = {a} \<Longrightarrow> ys = [a]"
proof (cases ys)
  case Nil
  assume "set ys = {a}"
  with Nil show ?thesis by simp
next
  case (Cons y zs)
  assume d: "distinct ys" and s: "set ys = {a}"
  from s Cons have y: "y = a" and sub: "set zs \<subseteq> {a}" by auto
  from d Cons y have "a \<notin> set zs" by simp
  with sub have "zs = []" by (cases zs) auto
  with Cons y show ?thesis by simp
qed

lemma chk_contains_Inr:
  assumes "chk_contains x what = Inr p"
  shows "p < length x" and "x ! p = what" and "\<And>q. q < length x \<Longrightarrow> x ! q = what \<Longrightarrow> q = p"
proof -
  from assms have f: "find_all x what = [p]"
    by (auto simp: chk_contains_def split: list.splits)
  then have s: "set (filter (\<lambda>i. x ! i = what) [0..<length x]) = {p}"
    by (simp add: find_all_def)
  then have "p \<in> set (filter (\<lambda>i. x ! i = what) [0..<length x])" by simp
  then show "p < length x" and "x ! p = what" by simp_all
  fix q assume "q < length x" "x ! q = what"
  then have "q \<in> set (filter (\<lambda>i. x ! i = what) [0..<length x])" by simp
  with s show "q = p" by simp
qed

lemma chk_contains_unique:
  assumes "p < length x" and "x ! p = what"
    and "\<And>q. q < length x \<Longrightarrow> x ! q = what \<Longrightarrow> q = p"
  shows "chk_contains x what = Inr p"
proof -
  have "set (filter (\<lambda>i. x ! i = what) [0..<length x]) = {p}"
  proof (intro equalityI subsetI)
    fix q assume "q \<in> set (filter (\<lambda>i. x ! i = what) [0..<length x])"
    then have "q < length x" "x ! q = what" by simp_all
    then have "q = p" by (rule assms(3))
    then show "q \<in> {p}" by simp
  next
    fix q assume "q \<in> {p}"
    with assms(1,2) show "q \<in> set (filter (\<lambda>i. x ! i = what) [0..<length x])" by simp
  qed
  moreover have "distinct (filter (\<lambda>i. x ! i = what) [0..<length x])" by simp
  ultimately have "find_all x what = [p]"
    unfolding find_all_def by (rule distinct_singleton_set [rotated])
  then show ?thesis by (simp add: chk_contains_def)
qed

lemma chk_contains_distinct:
  "distinct x \<Longrightarrow> i < length x \<Longrightarrow> chk_contains x (x ! i) = Inr i"
  by (rule chk_contains_unique) (auto simp: nth_eq_iff_index_eq)

lemma chk_contains_absent:
  "what \<notin> set x \<Longrightarrow> chk_contains x what = Inl SpeciesNotFound"
proof -
  assume "what \<notin> set x"
  then have "filter (\<lambda>i. x ! i = what) [0..<length x] = []"
    by (auto simp: filter_empty_conv)
  then show ?thesis by (simp add: chk_contains_def find_all_def)
qed

lemma find_current_species_Inr:
  assumes "find_current_species spec cs = Inr ics"
  shows "length ics = length cs"
    and "\<And>i. i < length cs \<Longrightarrow> chk_contains spec (cs ! i) = Inr (ics ! i)"
proof -
  have "length ics = length cs \<and> (\<forall>i<length cs. chk_contains spec (cs ! i) = Inr (ics ! i))"
    using assms
  proof (induction cs arbitrary: ics)
    case Nil
    then show ?case by simp
  next
    case (Cons c cs)
    from Cons.prems obtain i js where c: "chk_contains spec c = Inr i"
      and r: "find_current_species spec cs = Inr js" and ics: "ics = i # js"
      by (auto split: sum.splits)
    from Cons.IH [OF r] c ics show ?case by (auto simp: nth_Cons')
  qed
  then show "length ics = length cs"
    and "\<And>i. i < length cs \<Longrightarrow> chk_contains spec (cs ! i) = Inr (ics ! i)" by simp_all
qed

lemma find_current_species_all:
  assumes "\<And>i. i < length cs \<Longrightarrow> chk_contains spec (cs ! i) = Inr (f i)"
  shows "find_current_species spec cs = Inr (map f [0..<length cs])"
  using assms
proof (induction cs arbitrary: f)
  case Nil
  then show ?case by simp
next
  case (Cons c cs)
  have c: "chk_contains spec c = Inr (f 0)" using Cons.prems [of 0] by simp
  have "find_current_species spec cs = Inr (map (\<lambda>i. f (Suc i)) [0..<length cs])"
    by (rule Cons.IH) (use Cons.prems in force)
  with c show ?case
    by (simp add: upt_conv_Cons map_Suc_upt [symmetric] del: upt_Suc)
qed

lemma set_non_linear_Inr:
  assumes "set_non_linear ss nl = Inr nl'"
  shows "length nl' = length nl"
    and "\<And>j. j < length nl \<Longrightarrow> nl' ! j = (if int j \<in> set ss then 1 else nl ! j)"
    and "\<And>s. s \<in> set ss \<Longrightarrow> 0 \<le> s \<and> s < int (length nl)"
proof -
  have "length nl' = length nl \<and>
      (\<forall>j<length nl. nl' ! j = (if int j \<in> set ss then 1 else nl ! j)) \<and>
      (\<forall>s\<in>set ss. 0 \<le> s \<and> s < int (length nl))"
    using assms
  proof (induction ss arbitrary: nl)
    case Nil
    then show ?case by simp
  next
    case (Cons s ss)
    from Cons.prems have s: "0 \<le> s" "s < int (length nl)"
      and r: "set_non_linear ss (nl[nat s := 1]) = Inr nl'"
      by (auto split: if_splits)
    from Cons.IH [OF r] have ih: "length nl' = length nl"
      "\<forall>j<length nl. nl' ! j = (if int j \<in> set ss then 1 else nl[nat s := 1] ! j)"
      "\<forall>t\<in>set ss. 0 \<le> t \<and> t < int (length nl)" by simp_all
    have "\<forall>j<length nl. nl' ! j = (if int j \<in> set (s # ss) then 1 else nl ! j)"
    proof (intro allI impI)
      fix j assume j: "j < length nl"
      show "nl' ! j = (if int j \<in> set (s # ss) then 1 else nl ! j)"
      proof (cases "int j = s")
        case True
        then have "nat s = j" by simp
        with ih(2) j True show ?thesis by auto
      next
        case False
        then have "nat s \<noteq> j" using s(1) by auto
        with ih(2) j False show ?thesis by auto
      qed
    qed
    with ih s show ?case by simp
  qed
  then show "length nl' = length nl"
    and "\<And>j. j < length nl \<Longrightarrow> nl' ! j = (if int j \<in> set ss then 1 else nl ! j)"
    and "\<And>s. s \<in> set ss \<Longrightarrow> 0 \<le> s \<and> s < int (length nl)" by auto
qed

lemma set_non_linear_total:
  assumes "\<forall>s\<in>set ss. 0 \<le> s \<and> s < int (length nl)"
  shows "\<exists>nl'. set_non_linear ss nl = Inr nl'"
  using assms by (induction ss arbitrary: nl) auto

lemma check_table_Inr:
  assumes "check_table this = Inr ()"
  shows "species this \<noteq> []" and "distinct (nonlinear_species this)"
    and "\<And>s. s \<in> set (nonlinear_species this) \<Longrightarrow> 0 \<le> s \<and> s < int (length (species this))"
    and "is_increasing (f_grid this)" and "is_decreasing (p_grid this)"
    and "m_nrows (vmrs_ref this) = length (species this)"
    and "m_ncols (vmrs_ref this) = length (p_grid this)"
    and "length (t_ref this) = length (p_grid this)"
    and "nonlinear_species this = [] \<longleftrightarrow> nls_pert this = []"
    and "chk_xsec this = Inr ()"
  using assms
  by (auto simp: check_table_def Let_def is_unique_def list_all_iff split: if_splits)

lemma spec_pos_in_xsec_length [simp]:
  "length (spec_pos_in_xsec nl n sp) = length nl"
  by (induction nl arbitrary: sp) simp_all

lemma spec_pos_in_xsec_sorted:
  assumes "\<forall>x\<in>set nl. x \<noteq> 0 \<longrightarrow> 0 < n"
  shows "sorted_wrt (<) (spec_pos_in_xsec nl n sp) \<and>
         (\<forall>y\<in>set (spec_pos_in_xsec nl n sp). sp \<le> y)"
  using assms
proof (induction nl arbitrary: sp)
  case Nil
  then show ?case by simp
next
  case (Cons x nl)
  let ?sp' = "if x \<noteq> 0 then sp + n else sp + 1"
  from Cons.prems have lt: "sp < ?sp'" by auto
  from Cons.prems have "\<forall>x\<in>set nl. x \<noteq> 0 \<longrightarrow> 0 < n" by simp
  from Cons.IH [OF this, of ?sp'] lt show ?case by fastforce
qed

lemma Adapt_fields:
  assumes "Adapt_new_table this cs cf = Inr nt"
  shows "species (snd (Adapt this cs cf)) = species nt"
    and "nonlinear_species (snd (Adapt this cs cf)) = nonlinear_species nt"
    and "f_grid (snd (Adapt this cs cf)) = f_grid nt"
    and "p_grid (snd (Adapt this cs cf)) = p_grid nt"
    and "log_p_grid (snd (Adapt this cs cf)) = map ln (p_grid nt)"
    and "vmrs_ref (snd (Adapt this cs cf)) = vmrs_ref nt"
    and "t_ref (snd (Adapt this cs cf)) = t_ref nt"
    and "t_pert (snd (Adapt this cs cf)) = t_pert nt"
    and "nls_pert (snd (Adapt this cs cf)) = nls_pert nt"
    and "xsec (snd (Adapt this cs cf)) = xsec nt"
  using assms by (simp_all add: Adapt_def)

text \<open>What a successful call knows about its index lists.\<close>

lemma Adapt_new_table_nonlinear:
  assumes "Adapt_new_table this cs cf = Inr nt"
  shows "species nt = cs"
    and "nonlinear_species nt =
      map int (filter (\<lambda>i. \<exists>j<length (species this). species this ! j = cs ! i \<and>
                              int j \<in> set (nonlinear_species this)) [0..<length cs])"
    and "nonlinear_species nt \<noteq> [] \<Longrightarrow> nls_pert nt = nls_pert this \<and> nls_pert this \<noteq> []"
    and "nonlinear_species nt = [] \<Longrightarrow> nls_pert nt = []"
proof -
  from assms obtain non_linear ics icf where
    nl: "set_non_linear (nonlinear_species this) (replicate (length (species this)) 0) = Inr non_linear"
    and ct: "check_table this = Inr ()"
    and fs: "find_current_species (species this) cs = Inr ics"
    and b: "build_new_table this ics (map (\<lambda>i. if non_linear ! i \<noteq> 0 then 1 else 0) ics)
           (length (filter (\<lambda>x. x \<noteq> 0) (map (\<lambda>i. if non_linear ! i \<noteq> (0::int) then 1 else (0::int)) ics)))
           icf (spec_pos_in_xsec non_linear (length (nls_pert this)) 0) = Inr nt"
    by (rule Adapt_new_table_Inr)
  note f = find_current_species_Inr [OF fs]
  note n = set_non_linear_Inr [OF nl]
  note bb = build_new_table_Inr [OF b]
  have pos: "ics ! i < length (species this) \<and> species this ! (ics ! i) = cs ! i"
    if "i < length cs" for i
    using chk_contains_Inr(1,2) [OF f(2) [OF that]] by simp
  show "species nt = cs"
    unfolding bb(1) by (rule nth_equalityI) (simp_all add: f(1) pos)
  have nlin: "(non_linear ! (ics ! i) \<noteq> 0) =
      (\<exists>j<length (species this). species this ! j = cs ! i \<and> int j \<in> set (nonlinear_species this))"
    if i: "i < length cs" for i
  proof -
    from pos [OF i] have p: "ics ! i < length (species this)" "species this ! (ics ! i) = cs ! i"
      by simp_all
    have "(non_linear ! (ics ! i) \<noteq> 0) = (int (ics ! i) \<in> set (nonlinear_species this))"
      using n(2) [of "ics ! i"] p(1) by simp
    also have "\<dots> = (\<exists>j<length (species this). species this ! j = cs ! i \<and>
        int j \<in> set (nonlinear_species this))"
    proof
      assume "int (ics ! i) \<in> set (nonlinear_species this)"
      with p show "\<exists>j<length (species this). species this ! j = cs ! i \<and>
        int j \<in> set (nonlinear_species this)" by blast
    next
      assume "\<exists>j<length (species this). species this ! j = cs ! i \<and>
        int j \<in> set (nonlinear_species this)"
      then obtain j where j: "j < length (species this)" "species this ! j = cs ! i"
        "int j \<in> set (nonlinear_species this)" by blast
      from chk_contains_Inr(3) [OF f(2) [OF i] j(1,2)] j(3)
      show "int (ics ! i) \<in> set (nonlinear_species this)" by simp
    qed
    finally show ?thesis .
  qed
  have "filter (\<lambda>i. map (\<lambda>i. if non_linear ! i \<noteq> 0 then 1 else (0::int)) ics ! i \<noteq> 0) [0..<length ics]
      = filter (\<lambda>i. \<exists>j<length (species this). species this ! j = cs ! i \<and>
                              int j \<in> set (nonlinear_species this)) [0..<length cs]"
    unfolding f(1) by (rule filter_cong) (simp_all add: f(1) nlin)
  then show nn: "nonlinear_species nt =
      map int (filter (\<lambda>i. \<exists>j<length (species this). species this ! j = cs ! i \<and>
                              int j \<in> set (nonlinear_species this)) [0..<length cs])"
    unfolding bb(2) by simp
  show "nls_pert nt = []" if "nonlinear_species nt = []"
    using that bb(8) by simp
  show "nls_pert nt = nls_pert this \<and> nls_pert this \<noteq> []" if ne: "nonlinear_species nt \<noteq> []"
  proof -
    from ne nn have "filter (\<lambda>i. \<exists>j<length (species this). species this ! j = cs ! i \<and>
        int j \<in> set (nonlinear_species this)) [0..<length cs] \<noteq> []" by auto
    then obtain i where "i \<in> set (filter (\<lambda>i. \<exists>j<length (species this).
        species this ! j = cs ! i \<and> int j \<in> set (nonlinear_species this)) [0..<length cs])"
      by (meson last_in_set)
    then obtain j where "int j \<in> set (nonlinear_species this)" by auto
    then have "nonlinear_species this \<noteq> []" by auto
    with check_table_Inr(9) [OF ct] ne bb(8) show ?thesis by simp
  qed
qed

lemma chk_xsec_Inr:
  assumes "chk_xsec this = Inr ()"
  shows "t_nbooks (xsec this) =
           (if nonlinear_species this = [] \<and> t_pert this = [] then 1 else length (t_pert this))"
    and "int (t_npages (xsec this)) =
           int (length (species this))
           + int (length (nonlinear_species this)) * (int (length (nls_pert this)) - 1)"
    and "t_nrows (xsec this) = length (f_grid this)"
    and "t_ncols (xsec this) = length (p_grid this)"
  using assms
  by (auto simp: chk_xsec_def chk_size_def Let_def split: if_splits)

lemma chk_xsec_intro:
  assumes "t_nbooks (xsec this) =
           (if nonlinear_species this = [] \<and> t_pert this = [] then 1 else length (t_pert this))"
    and "int (t_npages (xsec this)) =
           int (length (species this))
           + int (length (nonlinear_species this)) * (int (length (nls_pert this)) - 1)"
    and "t_nrows (xsec this) = length (f_grid this)"
    and "t_ncols (xsec this) = length (p_grid this)"
  shows "chk_xsec this = Inr ()"
  using assms
  by (auto simp: chk_xsec_def chk_size_def Let_def split: if_splits)

lemma length_filter_nth:
  "length (filter (\<lambda>i. P (xs ! i)) [0..<length xs]) = length (filter P xs)"
proof -
  have "filter P xs = filter P (map (\<lambda>i. xs ! i) [0..<length xs])" by (simp add: map_nth)
  also have "\<dots> = map (\<lambda>i. xs ! i) (filter (\<lambda>i. P (xs ! i)) [0..<length xs])"
    by (simp add: filter_map comp_def)
  finally show ?thesis by simp
qed

lemma Adapt_new_table_extents:
  assumes "Adapt_new_table this cs cf = Inr nt"
  shows "int (t_npages (xsec nt)) =
           int (length (species nt))
           + int (length (nonlinear_species nt)) * (int (length (nls_pert nt)) - 1)"
    and "t_nbooks (xsec nt) = t_nbooks (xsec this)"
    and "t_nrows (xsec nt) = length (f_grid nt)"
    and "t_ncols (xsec nt) = length (p_grid nt)"
    and "m_nrows (vmrs_ref nt) = length (species nt)"
    and "m_ncols (vmrs_ref nt) = length (p_grid nt)"
proof -
  from assms obtain non_linear ics icf where
    ct: "check_table this = Inr ()"
    and fs: "find_current_species (species this) cs = Inr ics"
    and b: "build_new_table this ics (map (\<lambda>i. if non_linear ! i \<noteq> 0 then 1 else 0) ics)
           (length (filter (\<lambda>x. x \<noteq> 0) (map (\<lambda>i. if non_linear ! i \<noteq> (0::int) then 1 else (0::int)) ics)))
           icf (spec_pos_in_xsec non_linear (length (nls_pert this)) 0) = Inr nt"
    by (rule Adapt_new_table_Inr)
  let ?cnl = "map (\<lambda>i. if non_linear ! i \<noteq> (0::int) then 1 else (0::int)) ics"
  note bb = build_new_table_Inr [OF b]
  note d = build_new_table_dims [OF b]
  note a = Adapt_new_table_nonlinear [OF assms]
  have lics: "length ics = length (species nt)" using bb(1) by simp
  have ln: "length (nonlinear_species nt) = length (filter (\<lambda>x. x \<noteq> 0) ?cnl)"
    unfolding bb(2) using length_filter_nth [of "\<lambda>x. x \<noteq> 0" ?cnl] by simp
  show "int (t_npages (xsec nt)) =
           int (length (species nt))
           + int (length (nonlinear_species nt)) * (int (length (nls_pert nt)) - 1)"
  proof (cases "nonlinear_species nt = []")
    case True
    with ln d(2) lics show ?thesis by simp
  next
    case False
    from a(3) [OF False] have "nls_pert nt = nls_pert this" "0 < length (nls_pert this)"
      by simp_all
    with ln d(2) lics show ?thesis by simp
  qed
  show "t_nbooks (xsec nt) = t_nbooks (xsec this)" by (rule d(1))
  show "t_nrows (xsec nt) = length (f_grid nt)" using d(3) bb(3) by simp
  show "t_ncols (xsec nt) = length (p_grid nt)"
    using d(4) bb(4) chk_xsec_Inr(4) [OF check_table_Inr(10) [OF ct]] by simp
  show "m_nrows (vmrs_ref nt) = length (species nt)" using d(5) lics by simp
  show "m_ncols (vmrs_ref nt) = length (p_grid nt)" using d(6) bb(4) by simp
qed

lemma Adapt_xsec_extents:
  assumes "Adapt this cs cf = (Inr (), new_table)"
  shows "int (t_npages (xsec new_table)) =
           int (length (species new_table))
           + int (length (nonlinear_species new_table)) * (int (length (nls_pert new_table)) - 1)"
    and "t_nbooks (xsec new_table) = t_nbooks (xsec this)"
    and "nonlinear_species this = [] \<or> t_pert this \<noteq> [] \<Longrightarrow>
           t_nbooks (xsec new_table) = max (length (t_pert new_table)) 1"
proof -
  from assms obtain nt where nt: "Adapt_new_table this cs cf = Inr nt"
    by (auto simp: Adapt_def split: sum.splits)
  from assms Adapt_fields [OF nt]
  have fld: "species new_table = species nt" "nonlinear_species new_table = nonlinear_species nt"
    "nls_pert new_table = nls_pert nt" "xsec new_table = xsec nt" "t_pert new_table = t_pert nt"
    by simp_all
  note e = Adapt_new_table_extents [OF nt]
  show "int (t_npages (xsec new_table)) =
           int (length (species new_table))
           + int (length (nonlinear_species new_table)) * (int (length (nls_pert new_table)) - 1)"
    unfolding fld by (rule e(1))
  show "t_nbooks (xsec new_table) = t_nbooks (xsec this)" unfolding fld by (rule e(2))
  assume v: "nonlinear_species this = [] \<or> t_pert this \<noteq> []"
  from nt obtain non_linear ics icf where ct: "check_table this = Inr ()"
    and b: "build_new_table this ics (map (\<lambda>i. if non_linear ! i \<noteq> 0 then 1 else 0) ics)
           (length (filter (\<lambda>x. x \<noteq> 0) (map (\<lambda>i. if non_linear ! i \<noteq> (0::int) then 1 else (0::int)) ics)))
           icf (spec_pos_in_xsec non_linear (length (nls_pert this)) 0) = Inr nt"
    by (rule Adapt_new_table_Inr)
  from chk_xsec_Inr(1) [OF check_table_Inr(10) [OF ct]] v
  have "t_nbooks (xsec this) = max (length (t_pert this)) 1"
    by (cases "t_pert this") (auto split: if_splits)
  with e(2) build_new_table_Inr(7) [OF b]
  show "t_nbooks (xsec new_table) = max (length (t_pert new_table)) 1" unfolding fld by simp
qed

lemma find_current_species_absent:
  assumes "distinct spec" and "c \<in> set cs" and "c \<notin> set spec"
  shows "find_current_species spec cs = Inl SpeciesNotFound"
  using assms(2)
proof (induction cs)
  case Nil
  then show ?case by simp
next
  case (Cons d cs)
  show ?case
  proof (cases "d \<in> set spec")
    case False
    then show ?thesis by (simp add: chk_contains_absent)
  next
    case True
    then obtain i where "i < length spec" "spec ! i = d" by (auto simp: in_set_conv_nth)
    with chk_contains_distinct [OF assms(1), of i] have d: "chk_contains spec d = Inr i" by simp
    from True assms(3) have "c \<noteq> d" by auto
    with Cons.prems have "c \<in> set cs" by simp
    from Cons.IH [OF this] d show ?thesis by simp
  qed
qed

lemma Adapt_species_not_found:
  assumes "set_non_linear (nonlinear_species this) (replicate (length (species this)) 0)
             = Inr non_linear"
    and "check_table this = Inr ()" and "is_increasing cf"
    and "distinct (species this)" and "c \<in> set cs" and "c \<notin> set (species this)"
  shows "Adapt this cs cf = (Inl SpeciesNotFound, this)"
proof -
  from assms(5) have "cs \<noteq> []" by auto
  with assms(1,2,3) find_current_species_absent [OF assms(4,5,6)]
  have "Adapt_new_table this cs cf = Inl SpeciesNotFound"
    by (simp add: Adapt_new_table_def)
  then show ?thesis by (simp add: Adapt_def)
qed

text \<open>
  Claim C3. Adapt builds the new table in a local variable and assigns it to the object
  only after the last check: when the call fails, with whatever error, the table is what it
  was before the call; when it succeeds, the table is the new table as a whole, with
  \<^verbatim>\<open>log_p_grid\<close> initialised. A requested species that is absent from a table whose
  species are all different is such a failure, with \<open>SpeciesNotFound\<close> (lemma
  \<open>Adapt_species_not_found\<close>).
\<close>

theorem C3_Adapt_failure_leaves_table:
  "(\<forall>e. fst (Adapt this cs cf) = Inl e \<longrightarrow> snd (Adapt this cs cf) = this) \<and>
   (\<forall>new_table. Adapt_new_table this cs cf = Inr new_table \<longrightarrow>
      Adapt this cs cf = (Inr (), new_table\<lparr>log_p_grid := map ln (p_grid new_table)\<rparr>))"
  by (auto simp: Adapt_def split: sum.splits)

theorem C3_Adapt_failure_leaves_table_witness:
  "fst (Adapt plain_table [''O3'', ''N2''] [100, 300]) = Inl SpeciesNotFound \<and>
   snd (Adapt plain_table [''O3'', ''N2''] [100, 300]) = plain_table"
proof -
  have "isl (Adapt_new_table plain_table [''O3'', ''N2''] [100, 300])"
    and "projl (Adapt_new_table plain_table [''O3'', ''N2''] [100, 300]) = SpeciesNotFound"
    by code_simp+
  then have "Adapt_new_table plain_table [''O3'', ''N2''] [100, 300] = Inl SpeciesNotFound"
    by (cases "Adapt_new_table plain_table [''O3'', ''N2''] [100, 300]") simp_all
  then have f: "fst (Adapt plain_table [''O3'', ''N2''] [100, 300]) = Inl SpeciesNotFound"
    by (simp add: Adapt_def)
  with C3_Adapt_failure_leaves_table [of plain_table "[''O3'', ''N2'']" "[100, 300]"]
  show ?thesis by simp
qed

text \<open>
  Claim C7. The third case of the check of \<^verbatim>\<open>xsec\<close> is taken whenever the table has a
  nonlinear species, with or without temperature perturbations, and asks for
  \<^verbatim>\<open>t_pert.nelem()\<close> books. A table with a nonlinear species, no temperature
  perturbations and an \<^verbatim>\<open>xsec\<close> without books is none of the three legal cases, and
  Adapt accepts it; its first extent is 0, not \<open>max(n_tpert, 1) = 1\<close>, the extent that
  Extract asserts: the table that Adapt produces fails the assertion of Extract on the
  extents of \<^verbatim>\<open>xsec\<close>.
\<close>

theorem C7_humidity_only_accepted:
  "chk_xsec humidity_only_table = Inr () \<and>
   fst (Adapt humidity_only_table [''H2O''] [100]) = Inr () \<and>
   nonlinear_species humidity_only_table \<noteq> [] \<and> t_pert humidity_only_table = [] \<and>
   t_nbooks (xsec humidity_only_table) = 0 \<and>
   max (length (t_pert humidity_only_table)) 1 = 1 \<and>
   extract_table_asserts (snd (Adapt humidity_only_table [''H2O''] [100]))
     = Inl AssertionFailure"
proof -
  have n: "\<not> isl (Adapt_new_table humidity_only_table [''H2O''] [100])" by code_simp
  then have "fst (Adapt humidity_only_table [''H2O''] [100]) = Inr ()"
    by (rule Adapt_not_isl)
  moreover have "chk_xsec humidity_only_table = Inr ()"
    by (simp add: chk_xsec_def chk_size_def humidity_only_table_def)
  moreover have "extract_table_asserts (projr (Adapt_new_table humidity_only_table [''H2O''] [100]))
      = Inl AssertionFailure"
    by code_simp
  then have "extract_table_asserts (snd (Adapt humidity_only_table [''H2O''] [100]))
      = Inl AssertionFailure"
    unfolding Adapt_not_isl(2) [OF n] by (simp add: extract_table_asserts_log_p_grid)
  ultimately show ?thesis by (simp add: humidity_only_table_def)
qed

text \<open>
  Claim C2. From the table of claim C7 a successful Adapt that requests only the ordinary
  species produces a table with no nonlinear species, no perturbations of either kind and
  an \<^verbatim>\<open>xsec\<close> without books: its first extent is 0, not \<open>max(n_tpert, 1) = 1\<close>, and
  the table fails the assertion of Extract on the extents of \<^verbatim>\<open>xsec\<close>. The second
  extent follows the formula in every case, and the first one whenever the original table
  has temperature perturbations or no nonlinear species (lemma \<open>Adapt_xsec_extents\<close>).
\<close>

theorem C2_first_axis_after_humidity_only:
  "fst (Adapt humidity_only_table [''O3''] [100]) = Inr () \<and>
   nonlinear_species (snd (Adapt humidity_only_table [''O3''] [100])) = [] \<and>
   t_pert (snd (Adapt humidity_only_table [''O3''] [100])) = [] \<and>
   nls_pert (snd (Adapt humidity_only_table [''O3''] [100])) = [] \<and>
   t_nbooks (xsec (snd (Adapt humidity_only_table [''O3''] [100]))) = 0 \<and>
   extract_table_asserts (snd (Adapt humidity_only_table [''O3''] [100]))
     = Inl AssertionFailure"
proof -
  have n: "\<not> isl (Adapt_new_table humidity_only_table [''O3''] [100])" by code_simp
  have "nonlinear_species (projr (Adapt_new_table humidity_only_table [''O3''] [100])) = []"
    "t_pert (projr (Adapt_new_table humidity_only_table [''O3''] [100])) = []"
    "nls_pert (projr (Adapt_new_table humidity_only_table [''O3''] [100])) = []"
    "t_nbooks (xsec (projr (Adapt_new_table humidity_only_table [''O3''] [100]))) = 0"
    "extract_table_asserts (projr (Adapt_new_table humidity_only_table [''O3''] [100]))
       = Inl AssertionFailure"
    by code_simp+
  with Adapt_not_isl [OF n] show ?thesis
    by (simp add: extract_table_asserts_log_p_grid)
qed

section \<open>Adapting an adapted table\<close>

lemma locate_from_skipped:
  assumes "locate_from old_grid new_grid j = Inr pos"
    and "Suc i < length new_grid" and "pos ! i < pos ! Suc i"
  shows "\<bar>new_grid ! Suc i - old_grid ! (pos ! i)\<bar> > tolerance"
  using assms
proof (induction new_grid arbitrary: j pos i)
  case Nil
  then show ?case by simp
next
  case (Cons x xs)
  from Cons.prems(1) obtain j' ps where sc: "scan_old_grid old_grid x j = Inr j'"
    and rec: "locate_from old_grid xs j' = Inr ps" and pos: "pos = j' # ps"
    by (auto split: sum.splits)
  show ?case
  proof (cases i)
    case 0
    from Cons.prems(2) 0 obtain y ys where xs: "xs = y # ys" by (cases xs) auto
    with rec obtain k qs where sc2: "scan_old_grid old_grid y j' = Inr k" and ps: "ps = k # qs"
      by (auto split: sum.splits)
    from Cons.prems(3) 0 pos ps have "j' < k" by simp
    with scan_old_grid_Inr [OF sc2] have "\<bar>y - old_grid ! j'\<bar> > tolerance" by auto
    with 0 pos xs show ?thesis by simp
  next
    case (Suc i')
    with Cons.prems(2,3) pos have "Suc i' < length xs" "ps ! i' < ps ! Suc i'" by simp_all
    from Cons.IH [OF rec this] Suc pos show ?thesis by simp
  qed
qed

lemma scan_old_grid_here:
  "j < length g \<Longrightarrow> \<bar>x - g ! j\<bar> \<le> tolerance \<Longrightarrow> scan_old_grid g x j = Inr j"
  by (simp add: scan_old_grid.simps)

lemma scan_old_grid_next:
  "Suc j < length g \<Longrightarrow> \<bar>x - g ! j\<bar> > tolerance \<Longrightarrow> \<bar>x - g ! Suc j\<bar> \<le> tolerance \<Longrightarrow>
     scan_old_grid g x j = Inr (Suc j)"
  by (subst scan_old_grid.simps) (simp add: scan_old_grid_here)

lemma locate_from_identity:
  assumes len: "length g = length new_grid"
    and near: "\<And>i. i < length new_grid \<Longrightarrow> \<bar>new_grid ! i - g ! i\<bar> \<le> tolerance"
    and far: "\<And>i. Suc i < length new_grid \<Longrightarrow> \<bar>new_grid ! Suc i - g ! i\<bar> > tolerance"
    and i: "i < length new_grid"
  shows "locate_from g (drop i new_grid) (i - 1) = Inr [i..<length new_grid]"
  using i
proof (induction "length new_grid - i" arbitrary: i)
  case 0
  then show ?case by simp
next
  case (Suc d)
  from Suc.prems have dr: "drop i new_grid = new_grid ! i # drop (Suc i) new_grid"
    by (simp add: Cons_nth_drop_Suc)
  have sc: "scan_old_grid g (new_grid ! i) (i - 1) = Inr i"
  proof (cases i)
    case 0
    with Suc.prems near [of 0] len show ?thesis by (simp add: scan_old_grid_here)
  next
    case (Suc i')
    with Suc.prems far [of i'] near [of i] len show ?thesis
      by (simp add: scan_old_grid_next)
  qed
  have rest: "locate_from g (drop (Suc i) new_grid) i = Inr [Suc i..<length new_grid]"
  proof (cases "Suc i < length new_grid")
    case True
    have "d = length new_grid - Suc i" using Suc.hyps(2) by simp
    from Suc.hyps(1) [OF this True] show ?thesis by simp
  next
    case False
    with Suc.prems show ?thesis by simp
  qed
  from Suc.prems have "[i..<length new_grid] = i # [Suc i..<length new_grid]"
    by (simp add: upt_conv_Cons)
  with dr sc rest show ?case by simp
qed

lemma is_increasing_nth:
  "is_increasing g \<Longrightarrow> i < j \<Longrightarrow> j < length g \<Longrightarrow> g ! i < g ! j"
  unfolding is_increasing_def by (simp add: sorted_wrt_iff_nth_less)

lemma find_new_grid_in_adapted_grid:
  assumes "find_new_grid_in_old_grid old_grid new_grid = Inr pos"
    and "is_increasing (map (\<lambda>i. old_grid ! i) pos)"
  shows "find_new_grid_in_old_grid (map (\<lambda>i. old_grid ! i) pos) new_grid
           = Inr [0..<length new_grid]"
proof (cases "new_grid = []")
  case True
  then show ?thesis by (simp add: find_new_grid_in_old_grid_def)
next
  case False
  let ?g = "map (\<lambda>i. old_grid ! i) pos"
  from assms(1) have l: "locate_from old_grid new_grid 0 = Inr pos"
    by (simp add: find_new_grid_in_old_grid_def)
  from locate_from_Inr [OF l] have len: "length pos = length new_grid" and srt: "sorted pos"
    and near: "\<And>i. i < length new_grid \<Longrightarrow> \<bar>new_grid ! i - old_grid ! (pos ! i)\<bar> \<le> tolerance"
    by auto
  have far: "\<bar>new_grid ! Suc i - ?g ! i\<bar> > tolerance" if i: "Suc i < length new_grid" for i
  proof -
    from assms(2) i len have "?g ! i < ?g ! Suc i"
      by (intro is_increasing_nth) simp_all
    with i len have "pos ! i \<noteq> pos ! Suc i" by auto
    moreover from srt i len have "pos ! i \<le> pos ! Suc i"
      by (intro sorted_nth_mono) simp_all
    ultimately have "pos ! i < pos ! Suc i" by simp
    from locate_from_skipped [OF l i this] i len show ?thesis by simp
  qed
  have "locate_from ?g (drop 0 new_grid) (0 - 1) = Inr [0..<length new_grid]"
    by (rule locate_from_identity) (use len near far False in simp_all)
  then show ?thesis by (simp add: find_new_grid_in_old_grid_def)
qed

lemma fold_err_append:
  "fold_err f (xs @ ys) s =
     (case fold_err f xs s of Inl e \<Rightarrow> Inl e | Inr t \<Rightarrow> fold_err f ys t)"
  by (induction xs arbitrary: s) (auto split: sum.splits)

lemma fold_err_upt_Suc:
  "fold_err f [0..<Suc k] s =
     (case fold_err f [0..<k] s of Inl e \<Rightarrow> Inl e | Inr t \<Rightarrow> f k t)"
  by (simp add: fold_err_append split: sum.splits)

lemma copy_vmrs_rows_Inr:
  assumes "fold_err (\<lambda>i. copy_vmrs_row old (ics ! i) i) [0..<k] new = Inr new'"
  shows "new' = new\<lparr>m_elem := (\<lambda>r c. if r < k \<and> c < m_ncols new
                                   then m_elem old (ics ! r) c else m_elem new r c)\<rparr>"
  using assms
proof (induction k arbitrary: new')
  case 0
  then show ?case by simp
next
  case (Suc k)
  from Suc.prems obtain mid where
    m: "fold_err (\<lambda>i. copy_vmrs_row old (ics ! i) i) [0..<k] new = Inr mid"
    and s: "copy_vmrs_row old (ics ! k) k mid = Inr new'"
    unfolding fold_err_upt_Suc by (auto split: sum.splits)
  note mid = Suc.IH [OF m]
  from mid have dm: "m_nrows mid = m_nrows new" "m_ncols mid = m_ncols new"
    and em: "m_elem mid = (\<lambda>r c. if r < k \<and> c < m_ncols new
                                   then m_elem old (ics ! r) c else m_elem new r c)"
    and mm: "Matrix.more mid = Matrix.more new"
    by simp_all
  from s have n': "new' = mid\<lparr>m_elem := (\<lambda>r c. if r = k \<and> c < m_ncols mid
                                      then m_elem old (ics ! k) c else m_elem mid r c)\<rparr>"
    by (auto simp: copy_vmrs_row_def split: if_splits)
  show ?case
    by (rule Matrix.equality) (auto simp: n' dm em mm fun_eq_iff less_Suc_eq)
qed

lemma copy_vmrs_rows_total:
  assumes "k \<le> m_nrows new" and "\<And>i. i < k \<Longrightarrow> ics ! i < m_nrows old"
    and "m_ncols new = m_ncols old"
  shows "\<exists>new'. fold_err (\<lambda>i. copy_vmrs_row old (ics ! i) i) [0..<k] new = Inr new'"
  using assms(1,2)
proof (induction k)
  case 0
  then show ?case by simp
next
  case (Suc k)
  from Suc obtain mid where
    m: "fold_err (\<lambda>i. copy_vmrs_row old (ics ! i) i) [0..<k] new = Inr mid"
    by force
  from copy_vmrs_rows_Inr [OF m] have d: "m_nrows mid = m_nrows new" "m_ncols mid = m_ncols new"
    by simp_all
  with Suc.prems assms(3) have "\<exists>new'. copy_vmrs_row old (ics ! k) k mid = Inr new'"
    by (simp add: copy_vmrs_row_def)
  with m show ?case unfolding fold_err_upt_Suc by simp
qed

lemma copy_xsec_freqs_Inr:
  assumes "fold_err (\<lambda>i_f. copy_xsec_block old sp orig n_v i_f (icf ! i_f)) [0..<m] new
             = Inr new'"
  shows "new' = new\<lparr>t_elem := (\<lambda>b p r c.
            if b < t_nbooks new \<and> sp \<le> p \<and> p < sp + n_v \<and> r < m \<and> c < t_ncols new
            then t_elem old b (orig + (p - sp)) (icf ! r) c else t_elem new b p r c)\<rparr>"
  using assms
proof (induction m arbitrary: new')
  case 0
  then show ?case by simp
next
  case (Suc m)
  from Suc.prems obtain mid where
    m: "fold_err (\<lambda>i_f. copy_xsec_block old sp orig n_v i_f (icf ! i_f)) [0..<m] new = Inr mid"
    and s: "copy_xsec_block old sp orig n_v m (icf ! m) mid = Inr new'"
    unfolding fold_err_upt_Suc by (auto split: sum.splits)
  note mid = Suc.IH [OF m]
  from mid have dm: "t_nbooks mid = t_nbooks new" "t_npages mid = t_npages new"
    "t_nrows mid = t_nrows new" "t_ncols mid = t_ncols new"
    and em: "t_elem mid = (\<lambda>b p r c.
            if b < t_nbooks new \<and> sp \<le> p \<and> p < sp + n_v \<and> r < m \<and> c < t_ncols new
            then t_elem old b (orig + (p - sp)) (icf ! r) c else t_elem new b p r c)"
    and mm: "Tensor4.more mid = Tensor4.more new"
    by simp_all
  from s have n': "new' = mid\<lparr>t_elem := (\<lambda>b p r c.
                   if b < t_nbooks mid \<and> sp \<le> p \<and> p < sp + n_v \<and> r = m \<and> c < t_ncols mid
                   then t_elem old b (orig + (p - sp)) (icf ! m) c
                   else t_elem mid b p r c)\<rparr>"
    by (auto simp: copy_xsec_block_def split: if_splits)
  show ?case
    by (rule Tensor4.equality) (auto simp: n' dm em mm fun_eq_iff less_Suc_eq)
qed

lemma copy_xsec_freqs_total:
  assumes "t_nbooks new = t_nbooks old" and "t_ncols new = t_ncols old"
    and "sp + n_v \<le> t_npages new" and "orig + n_v \<le> t_npages old"
    and "m \<le> t_nrows new" and "\<And>i. i < m \<Longrightarrow> icf ! i < t_nrows old"
  shows "\<exists>new'. fold_err (\<lambda>i_f. copy_xsec_block old sp orig n_v i_f (icf ! i_f)) [0..<m] new
           = Inr new'"
  using assms(5,6)
proof (induction m)
  case 0
  then show ?case by simp
next
  case (Suc m)
  from Suc obtain mid where
    m: "fold_err (\<lambda>i_f. copy_xsec_block old sp orig n_v i_f (icf ! i_f)) [0..<m] new = Inr mid"
    by force
  from copy_xsec_freqs_Inr [OF m] have "t_nbooks mid = t_nbooks new" "t_npages mid = t_npages new"
    "t_nrows mid = t_nrows new" "t_ncols mid = t_ncols new" by simp_all
  with Suc.prems assms(1-4)
  have "\<exists>new'. copy_xsec_block old sp orig n_v m (icf ! m) mid = Inr new'"
    by (simp add: copy_xsec_block_def)
  with m show ?case unfolding fold_err_upt_Suc by simp
qed

lemma pages_before_0 [simp]: "pages_before nl m 0 = 0"
  by (simp add: pages_before_def)

lemma pages_before_Suc:
  "i < length nl \<Longrightarrow>
     pages_before nl m (Suc i) = pages_before nl m i + (if nl ! i \<noteq> 0 then m else 1)"
  by (simp add: pages_before_def take_Suc_conv_app_nth)

lemma pages_before_mono:
  "i \<le> j \<Longrightarrow> pages_before nl m i \<le> pages_before nl m j"
proof (induction j)
  case 0
  then show ?case by simp
next
  case (Suc j)
  show ?case
  proof (cases "i = Suc j")
    case True
    then show ?thesis by simp
  next
    case False
    with Suc.prems have ij: "i \<le> j" by simp
    have "pages_before nl m j \<le> pages_before nl m (Suc j)"
    proof (cases "j < length nl")
      case True
      then show ?thesis by (simp add: pages_before_Suc)
    next
      case False
      then show ?thesis by (simp add: pages_before_def)
    qed
    with Suc.IH [OF ij] show ?thesis by simp
  qed
qed

lemma spec_pos_in_xsec_nth:
  "i < length nl \<Longrightarrow> spec_pos_in_xsec nl m sp ! i = sp + pages_before nl m i"
proof (induction nl arbitrary: sp i)
  case Nil
  then show ?case by simp
next
  case (Cons x nl)
  show ?case
  proof (cases i)
    case 0
    then show ?thesis by simp
  next
    case (Suc i')
    with Cons.prems have "i' < length nl" by simp
    from Cons.IH [OF this] Suc show ?thesis by (simp add: pages_before_def)
  qed
qed

lemma pages_before_total:
  "int (pages_before nl m (length nl)) =
     int (length nl) + int (length (filter (\<lambda>x. x \<noteq> 0) nl)) * (int m - 1)"
  by (induction nl) (simp_all add: pages_before_def algebra_simps)

lemma copy_species_Inr:
  assumes "copy_species old osp ics cnl nlsp icf [k..<n] (pages_before cnl nlsp k) new = Inr new'"
    and "n \<le> length cnl"
  shows "(\<forall>i v b r c. k \<le> i \<and> i < n \<and> v < (if cnl ! i \<noteq> 0 then nlsp else 1) \<and>
            b < t_nbooks new \<and> r < length icf \<and> c < t_ncols new \<longrightarrow>
            t_elem new' b (pages_before cnl nlsp i + v) r c
              = t_elem old b (osp ! (ics ! i) + v) (icf ! r) c) \<and>
         (\<forall>b p r c. \<not> (pages_before cnl nlsp k \<le> p \<and> p < pages_before cnl nlsp n \<and>
            b < t_nbooks new \<and> r < length icf \<and> c < t_ncols new) \<longrightarrow>
            t_elem new' b p r c = t_elem new b p r c)"
  using assms(1)
proof (induction "n - k" arbitrary: k new)
  case 0
  then have nk: "n \<le> k" by simp
  then have "[k..<n] = []" by simp
  with "0.prems" have "new' = new" by simp
  with nk show ?case by auto
next
  case (Suc d)
  then have kn: "k < n" by simp
  with assms(2) have kl: "k < length cnl" by simp
  let ?n_v = "if cnl ! k \<noteq> 0 then nlsp else 1"
  let ?off = "pages_before cnl nlsp"
  from kn have upt: "[k..<n] = k # [Suc k..<n]" by (simp add: upt_conv_Cons)
  from Suc.prems obtain mid where
    m: "fold_err (\<lambda>i_f. copy_xsec_block old (?off k) (osp ! (ics ! k)) ?n_v i_f (icf ! i_f))
          [0..<length icf] new = Inr mid"
    and r: "copy_species old osp ics cnl nlsp icf [Suc k..<n] (?off k + ?n_v) mid = Inr new'"
    unfolding upt by (auto simp: Let_def split: sum.splits)
  have offS: "?off (Suc k) = ?off k + ?n_v" using kl by (simp add: pages_before_Suc)
  note mid = copy_xsec_freqs_Inr [OF m]
  from mid have dm: "t_nbooks mid = t_nbooks new" "t_ncols mid = t_ncols new"
    and em: "t_elem mid = (\<lambda>b p r c.
            if b < t_nbooks new \<and> ?off k \<le> p \<and> p < ?off k + ?n_v \<and> r < length icf \<and>
               c < t_ncols new
            then t_elem old b (osp ! (ics ! k) + (p - ?off k)) (icf ! r) c
            else t_elem new b p r c)"
    by simp_all
  have d: "d = n - Suc k" using Suc.hyps(2) by simp
  from r have r': "copy_species old osp ics cnl nlsp icf [Suc k..<n] (?off (Suc k)) mid = Inr new'"
    unfolding offS .
  note ih = Suc.hyps(1) [OF d r', unfolded dm]
  from ih have ih1: "\<And>i v b r c. Suc k \<le> i \<Longrightarrow> i < n \<Longrightarrow> v < (if cnl ! i \<noteq> 0 then nlsp else 1) \<Longrightarrow>
            b < t_nbooks new \<Longrightarrow> r < length icf \<Longrightarrow> c < t_ncols new \<Longrightarrow>
            t_elem new' b (?off i + v) r c = t_elem old b (osp ! (ics ! i) + v) (icf ! r) c"
    by blast
  from ih have ih2: "\<And>b p r c. \<not> (?off (Suc k) \<le> p \<and> p < ?off n \<and>
            b < t_nbooks new \<and> r < length icf \<and> c < t_ncols new) \<Longrightarrow>
            t_elem new' b p r c = t_elem mid b p r c"
    by blast
  have mono: "?off (Suc k) \<le> ?off n" using kn by (intro pages_before_mono) simp
  show ?case
  proof (intro conjI allI impI)
    fix i v b r c
    assume a: "k \<le> i \<and> i < n \<and> v < (if cnl ! i \<noteq> 0 then nlsp else 1) \<and>
            b < t_nbooks new \<and> r < length icf \<and> c < t_ncols new"
    show "t_elem new' b (?off i + v) r c = t_elem old b (osp ! (ics ! i) + v) (icf ! r) c"
    proof (cases "i = k")
      case True
      with a offS have lt: "?off k + v < ?off (Suc k)" by simp
      then have "t_elem new' b (?off k + v) r c = t_elem mid b (?off k + v) r c"
        by (intro ih2) simp
      also from a True lt offS have "\<dots> = t_elem old b (osp ! (ics ! k) + v) (icf ! r) c"
        by (simp add: em)
      finally show ?thesis using True by simp
    next
      case False
      with a have "Suc k \<le> i" by simp
      with a show ?thesis by (intro ih1) simp_all
    qed
  next
    fix b p r c
    assume a: "\<not> (?off k \<le> p \<and> p < ?off n \<and> b < t_nbooks new \<and> r < length icf \<and>
                  c < t_ncols new)"
    have le: "?off k \<le> ?off (Suc k)" by (intro pages_before_mono) simp
    from a le have "\<not> (?off (Suc k) \<le> p \<and> p < ?off n \<and>
            b < t_nbooks new \<and> r < length icf \<and> c < t_ncols new)" by auto
    then have "t_elem new' b p r c = t_elem mid b p r c" by (rule ih2)
    also from a mono offS have "\<dots> = t_elem new b p r c"
      by (auto simp: em)
    finally show "t_elem new' b p r c = t_elem new b p r c" .
  qed
qed

lemma copy_species_total:
  assumes "t_nbooks new = t_nbooks old" and "t_ncols new = t_ncols old"
    and "pages_before cnl nlsp n \<le> t_npages new"
    and "\<And>i. k \<le> i \<Longrightarrow> i < n \<Longrightarrow>
           osp ! (ics ! i) + (if cnl ! i \<noteq> 0 then nlsp else 1) \<le> t_npages old"
    and "length icf \<le> t_nrows new" and "\<And>r. r < length icf \<Longrightarrow> icf ! r < t_nrows old"
    and "n \<le> length cnl"
  shows "\<exists>new'. copy_species old osp ics cnl nlsp icf [k..<n] (pages_before cnl nlsp k) new
           = Inr new'"
  using assms(1,2,3,4,5)
proof (induction "n - k" arbitrary: k new)
  case 0
  then have "n \<le> k" by simp
  then have e: "[k..<n] = []" by simp
  show ?case unfolding e by simp
next
  case (Suc d)
  then have kn: "k < n" by simp
  with assms(7) have kl: "k < length cnl" by simp
  let ?n_v = "if cnl ! k \<noteq> 0 then nlsp else 1"
  let ?off = "pages_before cnl nlsp"
  from kn have upt: "[k..<n] = k # [Suc k..<n]" by (simp add: upt_conv_Cons)
  have offS: "?off (Suc k) = ?off k + ?n_v" using kl by (simp add: pages_before_Suc)
  have "?off (Suc k) \<le> ?off n" using kn by (intro pages_before_mono) simp
  with Suc.prems(3) offS have sp: "?off k + ?n_v \<le> t_npages new" by simp
  have orig: "osp ! (ics ! k) + ?n_v \<le> t_npages old" using Suc.prems(4) [of k] kn by simp
  from copy_xsec_freqs_total [OF Suc.prems(1,2) sp orig Suc.prems(5) assms(6)]
  obtain mid where
    m: "fold_err (\<lambda>i_f. copy_xsec_block old (?off k) (osp ! (ics ! k)) ?n_v i_f (icf ! i_f))
          [0..<length icf] new = Inr mid"
    by blast
  from copy_xsec_freqs_Inr [OF m] have dm: "t_nbooks mid = t_nbooks new"
    "t_npages mid = t_npages new" "t_nrows mid = t_nrows new" "t_ncols mid = t_ncols new"
    by simp_all
  have d: "d = n - Suc k" using Suc.hyps(2) by simp
  have "\<exists>new'. copy_species old osp ics cnl nlsp icf [Suc k..<n] (?off (Suc k)) mid = Inr new'"
    by (rule Suc.hyps(1) [OF d]) (use Suc.prems dm in auto)
  with m show ?case unfolding upt by (simp add: offS Let_def)
qed

lemma matrix_resize_sel [simp]:
  "m_nrows (matrix_resize r c) = r" "m_ncols (matrix_resize r c) = c"
  "m_elem (matrix_resize r c) i j = 0"
  by (simp_all add: matrix_resize_def)

lemma tensor4_resize_sel [simp]:
  "t_nbooks (tensor4_resize b p r c) = b" "t_npages (tensor4_resize b p r c) = p"
  "t_nrows (tensor4_resize b p r c) = r" "t_ncols (tensor4_resize b p r c) = c"
  "t_elem (tensor4_resize b p r c) i j k l = 0"
  by (simp_all add: tensor4_resize_def)

lemma pages_before_cong:
  assumes "\<And>j. j < i \<Longrightarrow> nl ! j \<noteq> 0 \<Longrightarrow> m = m'" and "i \<le> length nl"
  shows "pages_before nl m i = pages_before nl m' i"
  using assms
proof (induction i)
  case 0
  then show ?case by simp
next
  case (Suc i)
  have "pages_before nl m i = pages_before nl m' i"
  proof (rule Suc.IH)
    fix j assume "j < i" "nl ! j \<noteq> 0"
    then show "m = m'" using Suc.prems(1) [of j] by simp
  next
    show "i \<le> length nl" using Suc.prems(2) by simp
  qed
  moreover from Suc.prems(1) [of i] have "(if nl ! i \<noteq> 0 then m else 1) = (if nl ! i \<noteq> 0 then m' else 1)"
    by auto
  ultimately show ?case using Suc.prems(2) by (simp add: pages_before_Suc)
qed

lemma pages_before_cover:
  assumes "p < pages_before nl m n" and "n \<le> length nl"
  shows "\<exists>i<n. pages_before nl m i \<le> p \<and> p < pages_before nl m (Suc i)"
  using assms
proof (induction n)
  case 0
  then show ?case by simp
next
  case (Suc n)
  show ?case
  proof (cases "p < pages_before nl m n")
    case True
    with Suc obtain i where "i < n" "pages_before nl m i \<le> p" "p < pages_before nl m (Suc i)"
      by auto
    then show ?thesis by (intro exI [of _ i]) simp
  next
    case False
    with Suc.prems show ?thesis by (intro exI [of _ n]) simp
  qed
qed

lemma readapt_vmrs_ref:
  assumes "fold_err (\<lambda>i. copy_vmrs_row old (ics ! i) i) [0..<n] (matrix_resize n np) = Inr v1"
  shows "fold_err (\<lambda>i. copy_vmrs_row v1 ([0..<n] ! i) i) [0..<n] (matrix_resize n np) = Inr v1"
proof -
  note c1 = copy_vmrs_rows_Inr [OF assms]
  from c1 have d1: "m_nrows v1 = n" "m_ncols v1 = np"
    and e1: "m_elem v1 = (\<lambda>r c. if r < n \<and> c < np then m_elem old (ics ! r) c else 0)"
    by (simp_all cong: if_cong)
  have "\<exists>v2. fold_err (\<lambda>i. copy_vmrs_row v1 ([0..<n] ! i) i) [0..<n] (matrix_resize n np) = Inr v2"
    by (rule copy_vmrs_rows_total) (simp_all add: d1)
  then obtain v2 where
    v2: "fold_err (\<lambda>i. copy_vmrs_row v1 ([0..<n] ! i) i) [0..<n] (matrix_resize n np) = Inr v2" ..
  note c2 = copy_vmrs_rows_Inr [OF v2]
  from c2 have d2: "m_nrows v2 = n" "m_ncols v2 = np"
    and e2: "m_elem v2 = (\<lambda>r c. if r < n \<and> c < np then m_elem v1 ([0..<n] ! r) c else 0)"
    by (simp_all cong: if_cong)
  have "v2 = v1"
    by (rule Matrix.equality) (auto simp: d1 d2 e1 e2 fun_eq_iff)
  with v2 show ?thesis by simp
qed

lemma readapt_xsec:
  assumes first: "copy_species old osp ics cnl nlsp icf [0..<n] 0
                    (tensor4_resize nb (pages_before cnl nlsp n) nf nc) = Inr x1"
    and len: "length cnl = n" "length icf = nf"
    and same: "\<And>i. i < n \<Longrightarrow> cnl ! i \<noteq> 0 \<Longrightarrow> nlsp2 = nlsp"
  shows "copy_species x1 (spec_pos_in_xsec cnl nlsp2 0) [0..<n] cnl nlsp2 [0..<nf] [0..<n] 0
           (tensor4_resize nb (pages_before cnl nlsp n) nf nc) = Inr x1"
proof -
  let ?x0 = "tensor4_resize nb (pages_before cnl nlsp n) nf nc"
  let ?off = "pages_before cnl nlsp"
  let ?nv = "\<lambda>i. if cnl ! i \<noteq> 0 then nlsp else 1"
  have d0: "t_nbooks ?x0 = nb" "t_npages ?x0 = ?off n" "t_nrows ?x0 = nf" "t_ncols ?x0 = nc"
    and e0: "t_elem ?x0 = (\<lambda>b p r c. 0)"
    by (simp_all add: fun_eq_iff)
  from copy_species_dims [OF first]
  have d1: "t_nbooks x1 = nb" "t_npages x1 = ?off n" "t_nrows x1 = nf" "t_ncols x1 = nc"
    by (simp_all add: d0)
  have off2: "pages_before cnl nlsp2 i = ?off i" if "i \<le> n" for i
  proof (rule pages_before_cong)
    fix j assume "j < i" "cnl ! j \<noteq> 0"
    with that show "nlsp2 = nlsp" by (intro same [of j]) simp_all
  next
    show "i \<le> length cnl" using that len by simp
  qed
  have nv2: "(if cnl ! i \<noteq> 0 then nlsp2 else 1) = ?nv i" if "i < n" for i
    using same [OF that] by auto
  have osp2: "spec_pos_in_xsec cnl nlsp2 0 ! i = ?off i" if "i < n" for i
    using that len by (simp add: spec_pos_in_xsec_nth off2)
  have offS: "?off (Suc i) = ?off i + ?nv i" if "i < n" for i
    using that len by (simp add: pages_before_Suc)
  have fits: "?off i + ?nv i \<le> ?off n" if "i < n" for i
    using pages_before_mono [of "Suc i" n cnl nlsp] that offS [OF that] by simp
  from first have first0: "copy_species old osp ics cnl nlsp icf [0..<n] (?off 0) ?x0 = Inr x1"
    by simp
  have n_le: "n \<le> length cnl" using len by simp
  note c1 = copy_species_Inr [OF first0 n_le, unfolded d0 e0 len(2)]
  have "\<exists>x2. copy_species x1 (spec_pos_in_xsec cnl nlsp2 0) [0..<n] cnl nlsp2 [0..<nf] [0..<n]
           (pages_before cnl nlsp2 0) ?x0 = Inr x2"
  proof (rule copy_species_total)
    show "t_nbooks ?x0 = t_nbooks x1" "t_ncols ?x0 = t_ncols x1" by (simp_all add: d0 d1)
    show "pages_before cnl nlsp2 n \<le> t_npages ?x0" by (simp add: d0 off2)
    show "spec_pos_in_xsec cnl nlsp2 0 ! ([0..<n] ! i) + (if cnl ! i \<noteq> 0 then nlsp2 else 1)
            \<le> t_npages x1" if "0 \<le> i" "i < n" for i
      using that fits [of i] by (simp add: osp2 nv2 d1)
    show "length [0..<nf] \<le> t_nrows ?x0" by (simp add: d0)
    show "[0..<nf] ! r < t_nrows x1" if "r < length [0..<nf]" for r
      using that by (simp add: d1)
    show "n \<le> length cnl" by (rule n_le)
  qed
  then obtain x2 where
    x2: "copy_species x1 (spec_pos_in_xsec cnl nlsp2 0) [0..<n] cnl nlsp2 [0..<nf] [0..<n]
           (pages_before cnl nlsp2 0) ?x0 = Inr x2" ..
  from copy_species_dims [OF x2]
  have d2: "t_nbooks x2 = nb" "t_npages x2 = ?off n" "t_nrows x2 = nf" "t_ncols x2 = nc"
    by (simp_all add: d0)
  note c2 = copy_species_Inr [OF x2 n_le, unfolded d0 e0]
  note c1b = c1 [THEN conjunct2, rule_format]
  note c2a = c2 [THEN conjunct1, rule_format]
  note c2b = c2 [THEN conjunct2, rule_format]
  have el: "t_elem x2 b p r c = t_elem x1 b p r c" for b p r c
  proof (cases "p < ?off n \<and> b < nb \<and> r < nf \<and> c < nc")
    case True
    with pages_before_cover [of p cnl nlsp n] n_le obtain i where
      i: "i < n" "?off i \<le> p" "p < ?off (Suc i)" by auto
    define v where "v = p - ?off i"
    from i offS [OF i(1)] have v: "v < ?nv i" "p = ?off i + v" by (simp_all add: v_def)
    have "t_elem x2 b (pages_before cnl nlsp2 i + v) r c
        = t_elem x1 b (spec_pos_in_xsec cnl nlsp2 0 ! ([0..<n] ! i) + v) ([0..<nf] ! r) c"
      by (rule c2a) (use i(1) v(1) True nv2 [OF i(1)] in simp)
    with i(1) True have "t_elem x2 b (?off i + v) r c = t_elem x1 b (?off i + v) r c"
      by (simp add: off2 osp2)
    then show ?thesis unfolding v(2) .
  next
    case False
    have "t_elem x1 b p r c = 0" by (rule c1b) (use False in simp)
    moreover have "t_elem x2 b p r c = 0" by (rule c2b) (use False in \<open>simp add: off2\<close>)
    ultimately show ?thesis by simp
  qed
  have "x2 = x1"
    by (rule Tensor4.equality) (simp_all add: d1 d2 el fun_eq_iff)
  with x2 show ?thesis by simp
qed

lemma check_table_log_p_grid [simp]:
  "check_table (this\<lparr>log_p_grid := l\<rparr>) = check_table this"
  by (simp add: check_table_def chk_xsec_def Let_def cong: if_cong)

lemma build_new_table_log_p_grid [simp]:
  "build_new_table (this\<lparr>log_p_grid := l\<rparr>) ics cnl ncnl icf osp
     = build_new_table this ics cnl ncnl icf osp"
  by (simp add: build_new_table_def Let_def cong: sum.case_cong if_cong)

lemma Adapt_new_table_log_p_grid:
  "Adapt_new_table (this\<lparr>log_p_grid := l\<rparr>) cs cf = Adapt_new_table this cs cf"
  by (simp add: Adapt_new_table_def Let_def cong: sum.case_cong if_cong)

lemma Adapt_new_table_again:
  assumes nt: "Adapt_new_table this cs cf = Inr nt"
    and dist: "distinct cs"
    and incr: "is_increasing (f_grid nt)"
    and valid: "nonlinear_species this = [] \<or> t_pert this \<noteq> []"
  shows "Adapt_new_table nt cs cf = Inr nt"
proof -
  from nt obtain non_linear ics icf where
    nl: "set_non_linear (nonlinear_species this) (replicate (length (species this)) 0) = Inr non_linear"
    and ct: "check_table this = Inr ()"
    and cs: "cs \<noteq> []" and cf: "is_increasing cf"
    and fs: "find_current_species (species this) cs = Inr ics"
    and fg: "find_new_grid_in_old_grid (f_grid this) cf = Inr icf"
    and b: "build_new_table this ics (map (\<lambda>i. if non_linear ! i \<noteq> 0 then 1 else 0) ics)
           (length (filter (\<lambda>x. x \<noteq> 0) (map (\<lambda>i. if non_linear ! i \<noteq> (0::int) then 1 else (0::int)) ics)))
           icf (spec_pos_in_xsec non_linear (length (nls_pert this)) 0) = Inr nt"
    by (rule Adapt_new_table_Inr)
  define cnl where "cnl = map (\<lambda>i. if non_linear ! i \<noteq> (0::int) then 1 else (0::int)) ics"
  define n where "n = length cs"
  define nlsp where "nlsp = length (nls_pert this)"
  define nlsp2 where "nlsp2 = length (nls_pert nt)"
  define ncnl where "ncnl = length (filter (\<lambda>x. x \<noteq> 0) cnl)"
  note bb = build_new_table_Inr [OF b, folded cnl_def ncnl_def nlsp_def]
  note a = Adapt_new_table_nonlinear [OF nt]
  note e = Adapt_new_table_extents [OF nt]
  note c = check_table_Inr [OF ct]
  have lics: "length ics = n" using find_current_species_Inr(1) [OF fs] by (simp add: n_def)
  have lcnl: "length cnl = n" by (simp add: cnl_def lics)
  have licf: "length icf = length cf"
    using locate_from_Inr [OF fg [unfolded find_new_grid_in_old_grid_def]] by simp
  have sp: "species nt = cs" by (rule a(1))
  have nls: "nonlinear_species nt = map int (filter (\<lambda>i. cnl ! i \<noteq> 0) [0..<n])"
    using bb(2) lics by simp
  have cnl01: "cnl ! i = 0 \<or> cnl ! i = 1" if "i < n" for i
    using that lics by (simp add: cnl_def)
  have mem: "(int i \<in> set (nonlinear_species nt)) = (cnl ! i \<noteq> 0)" if "i < n" for i
    using that by (auto simp: nls)
  \<comment> \<open>the logical array of the new table\<close>
  have rng: "\<forall>s\<in>set (nonlinear_species nt). 0 \<le> s \<and> s < int (length (replicate n (0::int)))"
    by (auto simp: nls)
  from set_non_linear_total [OF rng] obtain nl' where
    nl': "set_non_linear (nonlinear_species nt) (replicate n 0) = Inr nl'" ..
  have "nl' = cnl"
  proof (rule nth_equalityI)
    show "length nl' = length cnl" using set_non_linear_Inr(1) [OF nl'] lcnl by simp
    fix i assume "i < length nl'"
    then have i: "i < n" using set_non_linear_Inr(1) [OF nl'] by simp
    from set_non_linear_Inr(2) [OF nl', of i] i mem [OF i]
    have "nl' ! i = (if cnl ! i \<noteq> 0 then 1 else 0)" by simp
    with cnl01 [OF i] show "nl' ! i = cnl ! i" by auto
  qed
  with nl' have snl: "set_non_linear (nonlinear_species nt) (replicate (length (species nt)) 0)
      = Inr cnl" by (simp add: sp n_def)
  \<comment> \<open>the checks on the new table\<close>
  have same_pert: "nlsp2 = nlsp" if "i < n" "cnl ! i \<noteq> 0" for i
  proof -
    from that mem [OF that(1)] have "nonlinear_species nt \<noteq> []" by auto
    from a(3) [OF this] show ?thesis by (simp add: nlsp_def nlsp2_def)
  qed
  have nls_this: "nonlinear_species this \<noteq> []" if "nonlinear_species nt \<noteq> []"
    using a(3) [OF that] c(9) by simp
  have books: "t_nbooks (xsec nt) =
      (if nonlinear_species nt = [] \<and> t_pert nt = [] then 1 else length (t_pert nt))"
    using e(2) chk_xsec_Inr(1) [OF c(10)] bb(7) valid nls_this by (auto split: if_splits)
  have cx: "chk_xsec nt = Inr ()"
    by (rule chk_xsec_intro) (rule books e(1) e(3) e(4))+
  have pert_iff: "(nonlinear_species nt = []) = (nls_pert nt = [])"
  proof
    assume "nonlinear_species nt = []"
    then show "nls_pert nt = []" by (rule a(4))
  next
    assume p: "nls_pert nt = []"
    show "nonlinear_species nt = []"
    proof (rule ccontr)
      assume "nonlinear_species nt \<noteq> []"
      from a(3) [OF this] have "nls_pert nt = nls_pert this" and "nls_pert this \<noteq> []"
        by blast+
      with p show False by metis
    qed
  qed
  have ctn: "check_table nt = Inr ()"
    unfolding check_table_def Let_def
    using cs sp incr c(5) bb(4) bb(6) c(8) e(5) e(6) pert_iff cx
    by (auto simp: is_unique_def nls distinct_map list_all_iff n_def)
  \<comment> \<open>the index lists of the second call\<close>
  have fs2: "find_current_species (species nt) cs = Inr [0..<n]"
  proof -
    have "find_current_species cs cs = Inr (map (\<lambda>i. i) [0..<length cs])"
      by (rule find_current_species_all) (rule chk_contains_distinct [OF dist])
    then show ?thesis by (simp add: sp n_def)
  qed
  have cnl2: "map (\<lambda>i. if cnl ! i \<noteq> 0 then 1 else 0) [0..<n] = cnl"
  proof (rule nth_equalityI)
    show "length (map (\<lambda>i. if cnl ! i \<noteq> 0 then 1 else 0) [0..<n]) = length cnl"
      using lcnl by simp
    fix i assume "i < length (map (\<lambda>i. if cnl ! i \<noteq> 0 then 1 else (0::int)) [0..<n])"
    then have i: "i < n" by simp
    with cnl01 [OF i] show "map (\<lambda>i. if cnl ! i \<noteq> 0 then 1 else 0) [0..<n] ! i = cnl ! i"
      by auto
  qed
  have fg2: "find_new_grid_in_old_grid (f_grid nt) cf = Inr [0..<length cf]"
    unfolding bb(3) by (rule find_new_grid_in_adapted_grid [OF fg]) (use incr bb(3) in simp)
  \<comment> \<open>the new table of the second call\<close>
  have tot: "int (pages_before cnl nlsp n) = int n + int ncnl * (int nlsp - 1)"
    using pages_before_total [of cnl nlsp] by (simp add: lcnl ncnl_def)
  have pages: "nat (int n + int ncnl * (int nlsp - 1)) = pages_before cnl nlsp n"
    using tot by simp
  have pages2: "nat (int n + int ncnl * (int nlsp2 - 1)) = pages_before cnl nlsp n"
  proof (cases "ncnl = 0")
    case True
    with pages show ?thesis by simp
  next
    case False
    then obtain x where "x \<in> set cnl" "x \<noteq> 0"
      unfolding ncnl_def by (auto simp: filter_empty_conv)
    then obtain i where "i < n" "cnl ! i \<noteq> 0" using lcnl by (auto simp: in_set_conv_nth)
    from same_pert [OF this] pages show ?thesis by simp
  qed
  have v2: "fold_err (\<lambda>i. copy_vmrs_row (vmrs_ref nt) ([0..<n] ! i) i) [0..<n]
      (matrix_resize n (length (p_grid nt))) = Inr (vmrs_ref nt)"
    by (rule readapt_vmrs_ref [where old = "vmrs_ref this" and ics = ics])
      (use bb(9) lics bb(4) in simp)
  have x1: "copy_species (xsec this) (spec_pos_in_xsec non_linear nlsp 0) ics cnl nlsp icf
      [0..<n] 0 (tensor4_resize (t_nbooks (xsec this)) (pages_before cnl nlsp n) (length cf)
         (t_ncols (xsec this))) = Inr (xsec nt)"
    using bb(10) by (simp add: lics licf pages)
  have x2: "copy_species (xsec nt) (spec_pos_in_xsec cnl nlsp2 0) [0..<n] cnl nlsp2
      [0..<length cf] [0..<n] 0
      (tensor4_resize (t_nbooks (xsec this)) (pages_before cnl nlsp n) (length cf)
         (t_ncols (xsec this))) = Inr (xsec nt)"
    by (rule readapt_xsec [OF x1 lcnl licf same_pert])
  have nls_pert2: "(if nonlinear_species nt \<noteq> [] then nls_pert nt else []) = nls_pert nt"
    using a(4) by simp
  have lfg: "length (f_grid nt) = length cf" using bb(3) licf by simp
  have whole: "\<lparr>species = map (\<lambda>i. species nt ! i) [0..<n],
        nonlinear_species = map int (filter (\<lambda>i. cnl ! i \<noteq> 0) [0..<n]),
        f_grid = map (\<lambda>i. f_grid nt ! i) [0..<length cf],
        p_grid = p_grid nt, log_p_grid = [], vmrs_ref = vmrs_ref nt,
        t_ref = t_ref nt, t_pert = t_pert nt, nls_pert = nls_pert nt,
        xsec = xsec nt\<rparr> = nt"
  proof (rule GasAbsLookup.equality)
    show "species \<lparr>species = map (\<lambda>i. species nt ! i) [0..<n],
        nonlinear_species = map int (filter (\<lambda>i. cnl ! i \<noteq> 0) [0..<n]),
        f_grid = map (\<lambda>i. f_grid nt ! i) [0..<length cf],
        p_grid = p_grid nt, log_p_grid = [], vmrs_ref = vmrs_ref nt,
        t_ref = t_ref nt, t_pert = t_pert nt, nls_pert = nls_pert nt,
        xsec = xsec nt\<rparr> = species nt"
      using map_nth [of "species nt"] by (simp add: sp n_def)
    show "f_grid \<lparr>species = map (\<lambda>i. species nt ! i) [0..<n],
        nonlinear_species = map int (filter (\<lambda>i. cnl ! i \<noteq> 0) [0..<n]),
        f_grid = map (\<lambda>i. f_grid nt ! i) [0..<length cf],
        p_grid = p_grid nt, log_p_grid = [], vmrs_ref = vmrs_ref nt,
        t_ref = t_ref nt, t_pert = t_pert nt, nls_pert = nls_pert nt,
        xsec = xsec nt\<rparr> = f_grid nt"
      using map_nth [of "f_grid nt"] by (simp add: lfg)
  qed (simp_all add: nls bb(5))
  have bn: "build_new_table nt [0..<n] cnl ncnl [0..<length cf]
      (spec_pos_in_xsec cnl nlsp2 0) = Inr nt"
    unfolding build_new_table_def Let_def
    using v2 x2 nls_pert2 build_new_table_dims(1,4) [OF b]
    by (simp add: nlsp2_def [symmetric] pages2 nls [symmetric] whole [unfolded nls [symmetric]])
  show ?thesis
    unfolding Adapt_new_table_def Let_def
    using snl ctn cs cf fs2 fg2 bn
    by (simp add: cnl2 ncnl_def [symmetric] nlsp2_def [symmetric])
qed

lemma sorted_wrt_filter_upt: "sorted_wrt (<) (map int (filter P [0..<n]))"
  by (simp add: sorted_wrt_map sorted_wrt_filter)

lemma pages_before_strict:
  assumes "\<forall>x\<in>set nl. x \<noteq> 0 \<longrightarrow> 0 < m" and "i < j" and "j \<le> length nl"
  shows "pages_before nl m i < pages_before nl m j"
proof -
  from assms(2,3) have i: "i < length nl" by simp
  then have "nl ! i \<in> set nl" by simp
  with assms(1) have "0 < (if nl ! i \<noteq> 0 then m else 1)" by auto
  then have "pages_before nl m i < pages_before nl m (Suc i)"
    using i by (simp add: pages_before_Suc)
  also have "\<dots> \<le> pages_before nl m j"
    using assms(2) by (intro pages_before_mono) simp
  finally show ?thesis .
qed

lemma spec_pos_in_xsec_tiling:
  assumes pos: "\<forall>x\<in>set nl. x \<noteq> 0 \<longrightarrow> 0 < m"
  shows "\<forall>i<length nl. spec_pos_in_xsec nl m 0 ! i + (if nl ! i \<noteq> 0 then m else 1)
            = (if Suc i < length nl then spec_pos_in_xsec nl m 0 ! Suc i
               else pages_before nl m (length nl))"
    and "\<forall>p<pages_before nl m (length nl).
           \<exists>!i. i < length nl \<and> spec_pos_in_xsec nl m 0 ! i \<le> p \<and>
                p < spec_pos_in_xsec nl m 0 ! i + (if nl ! i \<noteq> 0 then m else 1)"
proof -
  have nth: "spec_pos_in_xsec nl m 0 ! i = pages_before nl m i" if "i < length nl" for i
    using spec_pos_in_xsec_nth [OF that, of m 0] by simp
  have step: "pages_before nl m i + (if nl ! i \<noteq> 0 then m else 1) = pages_before nl m (Suc i)"
    if "i < length nl" for i
    using that by (simp add: pages_before_Suc)
  show "\<forall>i<length nl. spec_pos_in_xsec nl m 0 ! i + (if nl ! i \<noteq> 0 then m else 1)
            = (if Suc i < length nl then spec_pos_in_xsec nl m 0 ! Suc i
               else pages_before nl m (length nl))"
  proof (intro allI impI)
    fix i assume i: "i < length nl"
    show "spec_pos_in_xsec nl m 0 ! i + (if nl ! i \<noteq> 0 then m else 1)
            = (if Suc i < length nl then spec_pos_in_xsec nl m 0 ! Suc i
               else pages_before nl m (length nl))"
    proof (cases "Suc i < length nl")
      case True
      then show ?thesis using nth [OF i] nth [OF True] step [OF i] by simp
    next
      case False
      with i have "Suc i = length nl" by simp
      then show ?thesis using nth [OF i] step [OF i] False by simp
    qed
  qed
  show "\<forall>p<pages_before nl m (length nl).
           \<exists>!i. i < length nl \<and> spec_pos_in_xsec nl m 0 ! i \<le> p \<and>
                p < spec_pos_in_xsec nl m 0 ! i + (if nl ! i \<noteq> 0 then m else 1)"
  proof (intro allI impI)
    fix p assume "p < pages_before nl m (length nl)"
    from pages_before_cover [OF this] obtain i where
      i: "i < length nl" "pages_before nl m i \<le> p" "p < pages_before nl m (Suc i)"
      by auto
    show "\<exists>!i. i < length nl \<and> spec_pos_in_xsec nl m 0 ! i \<le> p \<and>
                p < spec_pos_in_xsec nl m 0 ! i + (if nl ! i \<noteq> 0 then m else 1)"
    proof (rule ex1I [of _ i])
      show "i < length nl \<and> spec_pos_in_xsec nl m 0 ! i \<le> p \<and>
                p < spec_pos_in_xsec nl m 0 ! i + (if nl ! i \<noteq> 0 then m else 1)"
        using i nth [OF i(1)] step [OF i(1)] by simp
    next
      fix j
      assume j: "j < length nl \<and> spec_pos_in_xsec nl m 0 ! j \<le> p \<and>
                p < spec_pos_in_xsec nl m 0 ! j + (if nl ! j \<noteq> 0 then m else 1)"
      then have jl: "j < length nl" and j1: "pages_before nl m j \<le> p"
        and j2: "p < pages_before nl m (Suc j)"
        using nth [of j] step [of j] by simp_all
      show "j = i"
      proof (rule ccontr)
        assume "j \<noteq> i"
        then consider "j < i" | "i < j" by linarith
        then show False
        proof cases
          case 1
          then have "pages_before nl m (Suc j) \<le> pages_before nl m i"
            by (intro pages_before_mono) simp
          with j2 i(2) show False by simp
        next
          case 2
          then have "pages_before nl m (Suc i) \<le> pages_before nl m j"
            by (intro pages_before_mono) simp
          with i(3) j1 show False by simp
        qed
      qed
    qed
  qed
qed

text \<open>
  Claim C10. In the table that a successful Adapt produces, the species are the requested
  ones, and \<^verbatim>\<open>nonlinear_species\<close> is strictly increasing and holds exactly the positions
  \<open>i\<close> whose requested species is a nonlinear species of the original table, in the order
  of the new species list. The logical array of the nonlinear species of the new table is
  defined, and the scan over it gives every species its first page in \<^verbatim>\<open>xsec\<close>: the
  first species starts at page 0, an ordinary species is followed one page later and a
  nonlinear one as many pages later as there are VMR perturbations, the pages of the last
  species end with the page dimension of the new \<^verbatim>\<open>xsec\<close>, and every page of the new
  \<^verbatim>\<open>xsec\<close> belongs to exactly one species. The first pages are strictly increasing.
\<close>

theorem C10_nonlinear_species_order:
  assumes "Adapt this cs cf = (Inr (), new_table)"
  shows "species new_table = cs \<and> cs \<noteq> [] \<and>
    sorted_wrt (<) (nonlinear_species new_table) \<and>
    nonlinear_species new_table =
      map int (filter (\<lambda>i. \<exists>j<length (species this). species this ! j = cs ! i \<and>
                              int j \<in> set (nonlinear_species this)) [0..<length cs]) \<and>
    nls_pert new_table = (if nonlinear_species new_table = [] then [] else nls_pert this) \<and>
    (\<exists>non_linear pos.
        set_non_linear (nonlinear_species new_table) (replicate (length (species new_table)) 0)
          = Inr non_linear \<and>
        length non_linear = length cs \<and>
        (\<forall>i<length cs. (non_linear ! i \<noteq> 0) = (int i \<in> set (nonlinear_species new_table))) \<and>
        spec_pos_in_xsec non_linear (length (nls_pert new_table)) 0 = pos \<and>
        length pos = length cs \<and>
        sorted_wrt (<) pos \<and>
        pos ! 0 = 0 \<and>
        (\<forall>i<length cs.
           pos ! i + (if non_linear ! i \<noteq> 0 then length (nls_pert new_table) else 1)
             = (if Suc i < length cs then pos ! Suc i else t_npages (xsec new_table))) \<and>
        (\<forall>p<t_npages (xsec new_table).
           \<exists>!i. i < length cs \<and> pos ! i \<le> p \<and>
                p < pos ! i + (if non_linear ! i \<noteq> 0 then length (nls_pert new_table) else 1)))"
proof -
  from assms obtain nt where nt: "Adapt_new_table this cs cf = Inr nt"
    by (auto simp: Adapt_def split: sum.splits)
  from assms Adapt_fields [OF nt]
  have fld: "species new_table = species nt" "nonlinear_species new_table = nonlinear_species nt"
    "nls_pert new_table = nls_pert nt" "xsec new_table = xsec nt"
    by simp_all
  note a = Adapt_new_table_nonlinear [OF nt]
  note e = Adapt_new_table_extents [OF nt]
  from nt have ne: "cs \<noteq> []" by (rule Adapt_new_table_Inr)
  let ?nls = "nonlinear_species nt"
  let ?m = "length (nls_pert nt)"
  have s: "sorted_wrt (<) ?nls" unfolding a(2) by (rule sorted_wrt_filter_upt)
  have pert: "nls_pert nt = (if ?nls = [] then [] else nls_pert this)"
    using a(3) a(4) by auto
  have rng: "\<forall>s\<in>set ?nls. 0 \<le> s \<and> s < int (length (replicate (length (species nt)) (0::int)))"
    unfolding a(1) a(2) by auto
  from set_non_linear_total [OF rng] obtain non_linear where
    nl: "set_non_linear ?nls (replicate (length (species nt)) 0) = Inr non_linear" ..
  note n = set_non_linear_Inr [OF nl]
  have len: "length non_linear = length cs" using n(1) a(1) by simp
  have ch: "(non_linear ! i \<noteq> 0) = (int i \<in> set ?nls)" if "i < length cs" for i
    using n(2) [of i] that a(1) by simp
  have posm: "\<forall>x\<in>set non_linear. x \<noteq> 0 \<longrightarrow> 0 < ?m"
  proof (intro ballI impI)
    fix x assume "x \<in> set non_linear" "x \<noteq> 0"
    then obtain i where "i < length non_linear" "non_linear ! i \<noteq> 0"
      by (auto simp: in_set_conv_nth)
    with ch len have "int i \<in> set ?nls" by simp
    then have "?nls \<noteq> []" by auto
    from a(3) [OF this] show "0 < ?m" by simp
  qed
  let ?pos = "spec_pos_in_xsec non_linear ?m 0"
  from spec_pos_in_xsec_sorted [OF posm, of 0]
  have srt: "sorted_wrt (<) ?pos" by simp
  have lpos: "length ?pos = length cs" using len by simp
  have p0: "?pos ! 0 = 0"
    using ne len spec_pos_in_xsec_nth [of 0 non_linear ?m 0] by simp
  \<comment> \<open>the pages of all species are the pages of the new table\<close>
  have cnt: "length (filter (\<lambda>x. x \<noteq> 0) non_linear) = length ?nls"
  proof -
    have "length (filter (\<lambda>x. x \<noteq> 0) non_linear)
        = length (filter (\<lambda>i. non_linear ! i \<noteq> 0) [0..<length non_linear])"
      by (rule length_filter_nth [symmetric])
    also have "filter (\<lambda>i. non_linear ! i \<noteq> 0) [0..<length non_linear]
        = filter (\<lambda>i. int i \<in> set ?nls) [0..<length cs]"
      unfolding len by (rule filter_cong) (simp_all add: ch)
    also have "\<dots> = filter (\<lambda>i. \<exists>j<length (species this). species this ! j = cs ! i \<and>
                              int j \<in> set (nonlinear_species this)) [0..<length cs]"
      by (rule filter_cong) (auto simp: a(2))
    finally show ?thesis by (simp add: a(2))
  qed
  have "int (pages_before non_linear ?m (length non_linear)) = int (t_npages (xsec nt))"
    unfolding pages_before_total e(1) cnt using len a(1) by simp
  then have tot: "pages_before non_linear ?m (length cs) = t_npages (xsec nt)"
    by (simp add: len)
  note t = spec_pos_in_xsec_tiling [OF posm, unfolded tot len]
  show ?thesis
    unfolding fld
    apply (intro conjI)
        apply (rule a(1))
       apply (rule ne)
      apply (rule s)
     apply (rule a(2))
    apply (rule pert)
    apply (rule exI [of _ non_linear])
    apply (rule exI [of _ ?pos])
    apply (intro conjI)
            apply (rule nl)
           apply (rule len)
          apply (use ch in blast)
         apply (rule refl)
        apply (rule lpos)
       apply (rule srt)
      apply (rule p0)
     apply (rule t(1))
    apply (rule t(2))
    done
qed

theorem C10_nonlinear_species_order_witness:
  "nonlinear_species (snd (Adapt full_table [''H2O'', ''O3''] [100, 200])) = [0] \<and>
   set_non_linear (nonlinear_species (snd (Adapt full_table [''H2O'', ''O3''] [100, 200])))
     (replicate (length (species (snd (Adapt full_table [''H2O'', ''O3''] [100, 200])))) 0)
     = Inr [1, 0] \<and>
   spec_pos_in_xsec [1, 0]
     (length (nls_pert (snd (Adapt full_table [''H2O'', ''O3''] [100, 200])))) 0 = [0, 3] \<and>
   t_npages (xsec (snd (Adapt full_table [''H2O'', ''O3''] [100, 200]))) = 4"
proof -
  let ?new = "snd (Adapt full_table [''H2O'', ''O3''] [100, 200])"
  have n: "\<not> isl (Adapt_new_table full_table [''H2O'', ''O3''] [100, 200])"
    by code_simp
  then have "Adapt full_table [''H2O'', ''O3''] [100, 200] = (Inr (), ?new)"
    using Adapt_not_isl(1) [OF n] by (simp add: prod_eq_iff)
  from C10_nonlinear_species_order [OF this]
  obtain non_linear pos where
    sp: "species ?new = [''H2O'', ''O3'']"
    and nls: "nonlinear_species ?new =
      map int (filter (\<lambda>i. \<exists>j<length (species full_table).
                 species full_table ! j = [''H2O'', ''O3''] ! i \<and>
                 int j \<in> set (nonlinear_species full_table)) [0..<length [''H2O'', ''O3'']])"
    and pert: "nls_pert ?new = (if nonlinear_species ?new = [] then [] else nls_pert full_table)"
    and nl: "set_non_linear (nonlinear_species ?new) (replicate (length (species ?new)) 0)
          = Inr non_linear"
    and pos: "spec_pos_in_xsec non_linear (length (nls_pert ?new)) 0 = pos"
    and tile: "\<forall>i<length [''H2O'', ''O3''].
           pos ! i + (if non_linear ! i \<noteq> 0 then length (nls_pert ?new) else 1)
             = (if Suc i < length [''H2O'', ''O3''] then pos ! Suc i else t_npages (xsec ?new))"
    by blast
  have nls0: "nonlinear_species ?new = [0]"
    unfolding nls by (auto simp: full_table_def upt_conv_Cons less_Suc_eq)
  have m: "length (nls_pert ?new) = 3"
    unfolding pert nls0 by (simp add: full_table_def)
  have nl0: "non_linear = [1, 0]"
    using nl unfolding nls0 sp by simp
  have pos0: "pos = [0, 3]"
    using pos unfolding nl0 m by simp
  from tile [rule_format, of 1] have "t_npages (xsec ?new) = 4"
    unfolding nl0 pos0 m by simp
  with nls0 nl nl0 sp pos pos0 m show ?thesis by simp
qed

text \<open>
  Claim C8, as the specification states it: adapting an adapted table to the same species
  and frequencies succeeds and changes nothing. A species that is requested twice is found
  once in the original table and twice in the adapted one, so the second call fails; two
  requested frequencies within the tolerance of the same table frequency give the adapted
  table a frequency grid that is not increasing, so the second call fails as well.
\<close>

theorem C8_readapt_counterexample:
  "fst (Adapt plain_table [''O3'', ''O3''] [100]) = Inr () \<and>
   fst (Adapt (snd (Adapt plain_table [''O3'', ''O3''] [100])) [''O3'', ''O3''] [100])
     = Inl SpeciesNotUnique \<and>
   fst (Adapt plain_table [''O3''] [100, 100.5]) = Inr () \<and>
   fst (Adapt (snd (Adapt plain_table [''O3''] [100, 100.5])) [''O3''] [100, 100.5])
     = Inl GridNotIncreasing"
proof -
  have n1: "\<not> isl (Adapt_new_table plain_table [''O3'', ''O3''] [100])" by code_simp
  have "isl (Adapt_new_table (projr (Adapt_new_table plain_table [''O3'', ''O3''] [100]))
              [''O3'', ''O3''] [100])"
    and "projl (Adapt_new_table (projr (Adapt_new_table plain_table [''O3'', ''O3''] [100]))
              [''O3'', ''O3''] [100]) = SpeciesNotUnique"
    by code_simp+
  then have "Adapt_new_table (projr (Adapt_new_table plain_table [''O3'', ''O3''] [100]))
              [''O3'', ''O3''] [100] = Inl SpeciesNotUnique"
    by (cases "Adapt_new_table (projr (Adapt_new_table plain_table [''O3'', ''O3''] [100]))
              [''O3'', ''O3''] [100]") simp_all
  then have a: "fst (Adapt (snd (Adapt plain_table [''O3'', ''O3''] [100])) [''O3'', ''O3''] [100])
     = Inl SpeciesNotUnique"
    unfolding Adapt_not_isl(2) [OF n1]
    by (simp add: Adapt_def Adapt_new_table_log_p_grid)
  have n2: "\<not> isl (Adapt_new_table plain_table [''O3''] [100, 100.5])" by code_simp
  have "isl (Adapt_new_table (projr (Adapt_new_table plain_table [''O3''] [100, 100.5]))
              [''O3''] [100, 100.5])"
    and "projl (Adapt_new_table (projr (Adapt_new_table plain_table [''O3''] [100, 100.5]))
              [''O3''] [100, 100.5]) = GridNotIncreasing"
    by code_simp+
  then have "Adapt_new_table (projr (Adapt_new_table plain_table [''O3''] [100, 100.5]))
              [''O3''] [100, 100.5] = Inl GridNotIncreasing"
    by (cases "Adapt_new_table (projr (Adapt_new_table plain_table [''O3''] [100, 100.5]))
              [''O3''] [100, 100.5]") simp_all
  then have b: "fst (Adapt (snd (Adapt plain_table [''O3''] [100, 100.5])) [''O3''] [100, 100.5])
     = Inl GridNotIncreasing"
    unfolding Adapt_not_isl(2) [OF n2]
    by (simp add: Adapt_def Adapt_new_table_log_p_grid)
  from Adapt_not_isl(1) [OF n1] Adapt_not_isl(1) [OF n2] a b show ?thesis by simp
qed

text \<open>
  Claim C8, amended: for every table with temperature perturbations or without nonlinear
  species, every list of requested species without repetitions and every requested frequency
  grid, if Adapt succeeds and the frequency grid of the adapted table is increasing (no two
  requested frequencies were found at the same table frequency), then adapting the adapted
  table to the same species and frequencies succeeds and gives the same table, field by
  field.
\<close>

theorem C8_readapt:
  assumes "Adapt this cs cf = (Inr (), new_table)"
    and "distinct cs"
    and "is_increasing (f_grid new_table)"
    and "nonlinear_species this = [] \<or> t_pert this \<noteq> []"
  shows "Adapt new_table cs cf = (Inr (), new_table)"
proof -
  from assms(1) obtain nt where nt: "Adapt_new_table this cs cf = Inr nt"
    and new: "new_table = nt\<lparr>log_p_grid := map ln (p_grid nt)\<rparr>"
    by (auto simp: Adapt_def split: sum.splits)
  from assms(3) new have "is_increasing (f_grid nt)" by simp
  from Adapt_new_table_again [OF nt assms(2) this assms(4)]
  have "Adapt_new_table new_table cs cf = Inr nt"
    unfolding new by (simp add: Adapt_new_table_log_p_grid)
  then show ?thesis by (simp add: Adapt_def new)
qed

theorem C8_readapt_witness:
  "Adapt (snd (Adapt full_table [''H2O'', ''O3''] [100, 300])) [''H2O'', ''O3''] [100, 300]
     = (Inr (), snd (Adapt full_table [''H2O'', ''O3''] [100, 300]))"
proof -
  have n: "\<not> isl (Adapt_new_table full_table [''H2O'', ''O3''] [100, 300])" by code_simp
  have h1: "Adapt full_table [''H2O'', ''O3''] [100, 300]
      = (Inr (), snd (Adapt full_table [''H2O'', ''O3''] [100, 300]))"
    using Adapt_not_isl(1) [OF n] by (simp add: prod_eq_iff)
  have h2: "distinct [''H2O'', ''O3'']" by simp
  have "is_increasing (f_grid (projr (Adapt_new_table full_table [''H2O'', ''O3''] [100, 300])))"
    by code_simp
  then have h3: "is_increasing (f_grid (snd (Adapt full_table [''H2O'', ''O3''] [100, 300])))"
    unfolding Adapt_not_isl(2) [OF n] by simp
  have h4: "nonlinear_species full_table = [] \<or> t_pert full_table \<noteq> []"
    by (simp add: full_table_def)
  show ?thesis by (rule C8_readapt [OF h1 h2 h3 h4])
qed

end
